theory Spec2Isabelle
  imports Complex_Main
begin

section \<open>The queue server (queue\_server\_v2.py)\<close>

text \<open>
  The server is an asyncio program: one worker task (\<open>queue_worker\<close>), the request
  handlers, and one generator per open event stream share four global objects and are
  scheduled cooperatively. A task runs without interruption until it reaches an
  \<open>await\<close> that really suspends or a \<open>yield\<close> of a stream generator. \<open>put\<close> on an
  unbounded \<open>asyncio.Queue\<close> never suspends. The model is therefore a transition system
  whose steps are these uninterrupted blocks; the environment chooses which task resumes
  next and supplies what the program cannot decide itself: the request bodies, the
  identifier drawn by \<open>uuid.uuid4()\<close>, the reading of \<open>datetime.now()\<close>, and what the
  downstream completion call delivers.
\<close>

subsection \<open>Request bodies and their validation\<close>

datatype json =
    JNull
  | JBool bool
  | JInt int
  | JFloat rat
  | JStr string
  | JList "json list"
  | JObj "(string \<times> json) list"

text \<open>The annotations used by the two request classes.\<close>

datatype ftype = TStr | TInt | TFloat | TBool | TStrList | TDictList | TFloatDict

fun is_str :: "json \<Rightarrow> bool" where
  "is_str (JStr _) = True"
| "is_str _ = False"

fun is_dict :: "json \<Rightarrow> bool" where
  "is_dict (JObj _) = True"
| "is_dict _ = False"

fun is_number :: "json \<Rightarrow> bool" where
  "is_number (JInt _) = True"
| "is_number (JFloat _) = True"
| "is_number _ = False"

text \<open>
  A value conforms to an annotation when it has the annotated JSON shape. \<open>list[dict]\<close>
  puts no condition on the length of the list or on the keys of its elements.
\<close>

fun conforms :: "ftype \<Rightarrow> json \<Rightarrow> bool" where
  "conforms TStr v = is_str v"
| "conforms TInt v = (case v of JInt _ \<Rightarrow> True | _ \<Rightarrow> False)"
| "conforms TFloat v = is_number v"
| "conforms TBool v = (case v of JBool _ \<Rightarrow> True | _ \<Rightarrow> False)"
| "conforms TStrList v = (case v of JList xs \<Rightarrow> list_all is_str xs | _ \<Rightarrow> False)"
| "conforms TDictList v = (case v of JList xs \<Rightarrow> list_all is_dict xs | _ \<Rightarrow> False)"
| "conforms TFloatDict v = (case v of JObj kvs \<Rightarrow> list_all (\<lambda>kv. is_number (snd kv)) kvs | _ \<Rightarrow> False)"

text \<open>
  The conversion of a JSON value to an annotated type is the work of the validation
  library (\<open>pydantic.BaseModel\<close>), which is not part of the repository and whose
  versions differ in what they convert (a number given as a string, a truth value
  given as a number, and the like). The model takes it as a parameter: \<open>conv ty v\<close> is
  the converted value, or \<open>None\<close> when the library refuses \<open>v\<close> for \<open>ty\<close>.
\<close>

type_synonym validator = "ftype \<Rightarrow> json \<Rightarrow> json option"

text \<open>
  The library at its strictest: a value is accepted when it conforms to the annotation,
  and is taken as it is. Every version of the library accepts these values; the
  concrete runs below use no others.
\<close>

definition strict :: validator where
  "strict ty v = (if conforms ty v then Some v else None)"

text \<open>
  A field declaration: name, annotation, whether the annotation is \<open>Optional[...]\<close>, and
  the default (\<open>None\<close> for a required field).
\<close>

type_synonym field_decl = "string \<times> ftype \<times> bool \<times> json option"

definition QueueRequest :: "field_decl list" where
  "QueueRequest =
    [(''client_id'', TStr, False, None),
     (''messages'', TDictList, False, None),
     (''model'', TStr, False, None),
     (''temperature'', TFloat, False, Some (JFloat (7 / 10))),
     (''max_tokens'', TInt, True, Some JNull),
     (''top_p'', TFloat, False, Some (JFloat 1)),
     (''top_k'', TInt, True, Some JNull),
     (''frequency_penalty'', TFloat, False, Some (JFloat 0)),
     (''presence_penalty'', TFloat, False, Some (JFloat 0)),
     (''repeat_penalty'', TFloat, True, Some JNull),
     (''stop'', TStrList, True, Some JNull),
     (''logit_bias'', TFloatDict, True, Some JNull),
     (''seed'', TInt, True, Some JNull),
     (''stream'', TBool, False, Some (JBool True)),
     (''tools'', TDictList, True, Some JNull),
     (''tool_choice'', TStr, True, Some JNull),
     (''user'', TStr, True, Some JNull)]"

definition OpenAIChatRequest :: "field_decl list" where
  "OpenAIChatRequest =
    [(''model'', TStr, False, None),
     (''messages'', TDictList, False, None),
     (''temperature'', TFloat, True, Some (JFloat (7 / 10))),
     (''max_tokens'', TInt, True, Some JNull),
     (''top_p'', TFloat, True, Some (JFloat 1)),
     (''top_k'', TInt, True, Some JNull),
     (''frequency_penalty'', TFloat, True, Some (JFloat 0)),
     (''presence_penalty'', TFloat, True, Some (JFloat 0)),
     (''repeat_penalty'', TFloat, True, Some JNull),
     (''stop'', TStrList, True, Some JNull),
     (''logit_bias'', TFloatDict, True, Some JNull),
     (''seed'', TInt, True, Some JNull),
     (''stream'', TBool, True, Some (JBool False)),
     (''tools'', TDictList, True, Some JNull),
     (''tool_choice'', TStr, True, Some JNull),
     (''user'', TStr, True, Some JNull)]"

datatype validation_error = Missing string | Invalid string

type_synonym request_data = "(string \<times> json) list"

text \<open>
  One field of a request class: an absent field takes its default, and is an error when
  it has none; \<open>null\<close> is taken for an \<open>Optional\<close> field; any other value goes through
  the conversion.
\<close>

fun validate_field :: "validator \<Rightarrow> request_data \<Rightarrow> field_decl \<Rightarrow> validation_error + (string \<times> json)" where
  "validate_field conv body (name, ty, nullable, dflt) =
     (case map_of body name of
        None \<Rightarrow> (case dflt of None \<Rightarrow> Inl (Missing name) | Some d \<Rightarrow> Inr (name, d))
      | Some v \<Rightarrow>
          if nullable \<and> v = JNull then Inr (name, JNull)
          else (case conv ty v of
                  None \<Rightarrow> Inl (Invalid name)
                | Some v' \<Rightarrow> Inr (name, v')))"

text \<open>
  Validation of a body against a request class; the result is what \<open>request.dict()\<close>
  returns, every declared field with its value or default. The first offending field
  is the one reported.
\<close>

fun validate :: "validator \<Rightarrow> field_decl list \<Rightarrow> request_data \<Rightarrow> validation_error + request_data" where
  "validate conv [] body = Inr []"
| "validate conv (f # fs) body =
     (case validate_field conv body f of
        Inl e \<Rightarrow> Inl e
      | Inr kv \<Rightarrow> (case validate conv fs body of Inl e \<Rightarrow> Inl e | Inr kvs \<Rightarrow> Inr (kv # kvs)))"

definition str_field :: "request_data \<Rightarrow> string \<Rightarrow> string" where
  "str_field d name = (case map_of d name of Some (JStr x) \<Rightarrow> x | _ \<Rightarrow> [])"

text \<open>The truth value Python gives an object in \<open>if request.stream\<close>.\<close>

fun truthy :: "json \<Rightarrow> bool" where
  "truthy JNull = False"
| "truthy (JBool b) = b"
| "truthy (JInt i) = (i \<noteq> 0)"
| "truthy (JFloat x) = (x \<noteq> 0)"
| "truthy (JStr t) = (t \<noteq> [])"
| "truthy (JList xs) = (xs \<noteq> [])"
| "truthy (JObj kvs) = (kvs \<noteq> [])"

definition truthy_field :: "request_data \<Rightarrow> string \<Rightarrow> bool" where
  "truthy_field d name = (case map_of d name of None \<Rightarrow> False | Some v \<Rightarrow> truthy v)"

subsection \<open>Data model\<close>

type_synonym request_id = string

text \<open>The four values the \<open>status\<close> string of a \<open>RequestStatus\<close> takes.\<close>

datatype lifecycle = Queued | Processing | Complete | Error

record RequestStatus =
  status :: lifecycle
  client_id :: string
  created_at :: string
  started_at :: "string option"
  completed_at :: "string option"
  result :: "string option"
  error :: "string option"
  queue_entered_position :: "nat option"

record QueueResponse =
  resp_status :: lifecycle
  resp_request_id :: request_id
  resp_queue_position :: nat

record queue_item =
  item_request_id :: request_id
  item_client_id :: string
  item_request_data :: request_data

record QueueStats =
  total_received :: nat
  total_processed :: nat
  total_errors :: nat
  current_request_id :: "request_id option"

text \<open>
  What the worker puts on a relay queue: a text fragment, \<open>None\<close> at the end of a
  successful stream, or the dictionary \<open>{"error": message}\<close>.
\<close>

datatype relay_item = Fragment string | EndMarker | ErrorMarker string

text \<open>
  An \<open>asyncio.Queue\<close> object of \<open>stream_chunks\<close>. The model keeps every item ever put,
  in order, and counts how many have been taken by \<open>get\<close>; the content of the queue is
  \<open>drop (taken q) (items q)\<close>.
\<close>

record relay =
  items :: "relay_item list"
  taken :: nat

definition relay_put :: "relay_item \<Rightarrow> relay \<Rightarrow> relay" where
  "relay_put x q = q\<lparr>items := items q @ [x]\<rparr>"

definition relay_get :: "relay \<Rightarrow> (relay_item \<times> relay) option" where
  "relay_get q =
     (if taken q < length (items q) then Some (items q ! taken q, q\<lparr>taken := Suc (taken q)\<rparr>)
      else None)"

text \<open>The events of the two stream protocols, without their JSON framing.\<close>

datatype sse_event =
    Position nat
  | Chunk string
  | Done
  | ErrorEvent "string option"
  | QueueEntered "nat option"
  | QueuePosition nat
  | ContentChunk string
  | FinishChunk
  | DoneSentinel
  | ErrorChunk string

datatype protocol = Minimal | OpenAI

text \<open>
  Where a stream generator is suspended: before its first line (\<open>H_Start\<close>, OpenAI
  only), in the loop that polls while the request is queued (with \<open>last_position\<close>),
  at the \<open>yield ": queue_position=0"\<close> that follows this loop (\<open>H_Left\<close>, OpenAI only),
  in the loop that waits for the relay to appear, in the loop that drains the relay
  object it holds (by address), after the terminal event and before the final
  \<open>del\<close>, or finished.
\<close>

datatype stream_pc =
    H_Start
  | H_Queued "nat option"
  | H_Left
  | H_WaitRelay
  | H_Drain nat
  | H_Cleanup
  | H_Closed

text \<open>
  A stream generator: its variant, the request it follows, where it is suspended, the
  events it has yielded so far, and, when it is suspended in \<open>asyncio.sleep\<close>, the
  delay in seconds that it asked for.
\<close>

record stream_handler =
  protocol :: protocol
  h_request_id :: request_id
  pc :: stream_pc
  emitted :: "sse_event list"
  sleeping :: "rat option"

text \<open>The worker is waiting in \<open>request_queue.get()\<close>, or inside the completion call
  for a request with the text accumulated so far (\<open>full_response\<close>).\<close>

datatype worker_pc = W_Idle | W_Busy request_id string

record server =
  request_queue :: "queue_item list"
  status_tracker :: "request_id \<rightharpoonup> RequestStatus"
  stream_chunks :: "request_id \<rightharpoonup> nat"
  relays :: "relay list"
  queue_stats :: QueueStats
  worker :: worker_pc
  streams :: "stream_handler list"

definition init :: server where
  "init = \<lparr>request_queue = [], status_tracker = Map.empty, stream_chunks = Map.empty,
           relays = [],
           queue_stats = \<lparr>total_received = 0, total_processed = 0, total_errors = 0,
                          current_request_id = None\<rparr>,
           worker = W_Idle, streams = []\<rparr>"

definition qsize :: "server \<Rightarrow> nat" where
  "qsize s = length (request_queue s)"

subsection \<open>Admission\<close>

text \<open>
  The body shared by \<open>add_to_queue\<close> and the first half of \<open>openai_chat_completions\<close>:
  nothing in it suspends, so it is one step. \<open>rid\<close> is the identifier drawn by
  \<open>uuid.uuid4()\<close> and \<open>now\<close> the reading of the clock.
\<close>

definition admit :: "string \<Rightarrow> request_data \<Rightarrow> request_id \<Rightarrow> string \<Rightarrow> server \<Rightarrow> QueueResponse \<times> server" where
  "admit client d rid now s =
     (let queue_position = qsize s + 1;
          st = \<lparr>status = Queued, client_id = client, created_at = now, started_at = None,
                completed_at = None, result = None, error = None,
                queue_entered_position = Some queue_position\<rparr>;
          queue_item = \<lparr>item_request_id = rid, item_client_id = client, item_request_data = d\<rparr>
      in (\<lparr>resp_status = Queued, resp_request_id = rid, resp_queue_position = queue_position\<rparr>,
          s\<lparr>status_tracker := (status_tracker s)(rid \<mapsto> st),
            request_queue := request_queue s @ [queue_item],
            queue_stats := (queue_stats s)\<lparr>total_received := total_received (queue_stats s) + 1\<rparr>\<rparr>))"

definition add_to_queue :: "request_data \<Rightarrow> request_id \<Rightarrow> string \<Rightarrow> server \<Rightarrow> QueueResponse \<times> server" where
  "add_to_queue d rid now s = admit (str_field d ''client_id'') d rid now s"

text \<open>\<open>POST /queue/add\<close>: the body is validated against \<open>QueueRequest\<close> before
  \<open>add_to_queue\<close> runs; a body that fails is answered with the validation error.\<close>

definition post_queue_add ::
  "validator \<Rightarrow> request_data \<Rightarrow> request_id \<Rightarrow> string \<Rightarrow> server \<Rightarrow> (validation_error + QueueResponse) \<times> server" where
  "post_queue_add conv body rid now s =
     (case validate conv QueueRequest body of
        Inl e \<Rightarrow> (Inl e, s)
      | Inr d \<Rightarrow> (case add_to_queue d rid now s of (resp, s') \<Rightarrow> (Inr resp, s')))"

text \<open>
  \<open>POST /v1/chat/completions\<close> up to the point where it returns the streaming response
  or enters its polling loop: admission under the client tag \<open>openai_compat\<close>, and for
  \<open>stream\<close> a new generator that has not run yet.
\<close>

definition post_chat_completions ::
  "validator \<Rightarrow> request_data \<Rightarrow> request_id \<Rightarrow> string \<Rightarrow> server \<Rightarrow> (validation_error + QueueResponse) \<times> server" where
  "post_chat_completions conv body rid now s =
     (case validate conv OpenAIChatRequest body of
        Inl e \<Rightarrow> (Inl e, s)
      | Inr d \<Rightarrow>
          (case admit ''openai_compat'' d rid now s of
             (resp, s') \<Rightarrow>
               (Inr resp,
                if truthy_field d ''stream''
                then s'\<lparr>streams := streams s' @
                        [\<lparr>protocol = OpenAI, h_request_id = rid, pc = H_Start, emitted = [],
                          sleeping = None\<rparr>]\<rparr>
                else s')))"

subsection \<open>The worker\<close>

text \<open>One element of the downstream stream: the \<open>delta.content\<close> of each of its
  choices.\<close>

type_synonym llm_chunk = "string option list"

text \<open>\<open>chunk.choices and chunk.choices[0].delta.content\<close>: the content, when there is a
  first choice and its content is neither \<open>None\<close> nor empty.\<close>

definition chunk_content :: "llm_chunk \<Rightarrow> string option" where
  "chunk_content c =
     (case c of
        [] \<Rightarrow> None
      | d # _ \<Rightarrow> (case d of None \<Rightarrow> None | Some t \<Rightarrow> if t = [] then None else Some t))"

definition put_relay :: "nat \<Rightarrow> relay_item \<Rightarrow> server \<Rightarrow> server" where
  "put_relay a x s = s\<lparr>relays := (relays s)[a := relay_put x (relays s ! a)]\<rparr>"

text \<open>
  The handler \<open>except Exception as processing_error\<close>. A missing status record makes
  the handler itself raise; the outer handler then logs, sleeps and the loop continues.
\<close>

definition processing_error :: "request_id \<Rightarrow> string \<Rightarrow> string \<Rightarrow> server \<Rightarrow> server" where
  "processing_error rid msg now s =
     (let s1 = (case stream_chunks s rid of
                  Some a \<Rightarrow> put_relay a (ErrorMarker msg) s
                | None \<Rightarrow> s)
      in case status_tracker s1 rid of
           None \<Rightarrow> s1\<lparr>worker := W_Idle\<rparr>
         | Some st \<Rightarrow>
             s1\<lparr>status_tracker := (status_tracker s1)(rid \<mapsto>
                   st\<lparr>status := Error, completed_at := Some now, error := Some msg\<rparr>),
                queue_stats := (queue_stats s1)\<lparr>total_errors := total_errors (queue_stats s1) + 1,
                                               current_request_id := None\<rparr>,
                worker := W_Idle\<rparr>)"

text \<open>\<open>str(KeyError(rid))\<close>, raised by \<open>stream_chunks[request_id]\<close> when the entry is
  gone.\<close>

definition key_error :: "request_id \<Rightarrow> string" where
  "key_error rid = [CHR 0x27] @ rid @ [CHR 0x27]"

text \<open>
  \<open>request_queue.get()\<close> returns: the lines from the dequeue to the completion call,
  where the worker suspends. The completion call and the iteration of its result are
  one state of the model, with \<open>full_response\<close> empty at first.
\<close>

definition worker_get :: "string \<Rightarrow> server \<Rightarrow> server option" where
  "worker_get now s =
     (case (worker s, request_queue s) of
        (W_Idle, queue_item # rest) \<Rightarrow>
          (let rid = item_request_id queue_item in
           case status_tracker s rid of
             None \<Rightarrow> Some (s\<lparr>request_queue := rest\<rparr>)
           | Some st \<Rightarrow>
               Some (s\<lparr>request_queue := rest,
                       status_tracker := (status_tracker s)(rid \<mapsto>
                          st\<lparr>status := Processing, started_at := Some now\<rparr>),
                       queue_stats := (queue_stats s)\<lparr>current_request_id := Some rid\<rparr>,
                       stream_chunks := (stream_chunks s)(rid \<mapsto> length (relays s)),
                       relays := relays s @ [\<lparr>items = [], taken = 0\<rparr>],
                       worker := W_Busy rid []\<rparr>))
      | _ \<Rightarrow> None)"

text \<open>\<open>wait_for\<close> times out on the empty queue and the loop continues.\<close>

definition worker_timeout :: "server \<Rightarrow> server option" where
  "worker_timeout s =
     (if worker s = W_Idle \<and> request_queue s = [] then Some s else None)"

text \<open>One iteration of \<open>async for chunk in stream\<close>.\<close>

definition llm_chunk :: "llm_chunk \<Rightarrow> string \<Rightarrow> server \<Rightarrow> server option" where
  "llm_chunk c now s =
     (case worker s of
        W_Idle \<Rightarrow> None
      | W_Busy rid full_response \<Rightarrow>
          (case chunk_content c of
             None \<Rightarrow> Some s
           | Some content \<Rightarrow>
               (case stream_chunks s rid of
                  None \<Rightarrow> Some (processing_error rid (key_error rid) now s)
                | Some a \<Rightarrow>
                    Some ((put_relay a (Fragment content) s)
                            \<lparr>worker := W_Busy rid (full_response @ content)\<rparr>))))"

text \<open>The stream is exhausted: the lines after the \<open>async for\<close>.\<close>

definition llm_end :: "string \<Rightarrow> server \<Rightarrow> server option" where
  "llm_end now s =
     (case worker s of
        W_Idle \<Rightarrow> None
      | W_Busy rid full_response \<Rightarrow>
          (case stream_chunks s rid of
             None \<Rightarrow> Some (processing_error rid (key_error rid) now s)
           | Some a \<Rightarrow>
               (let s1 = put_relay a EndMarker s in
                case status_tracker s1 rid of
                  None \<Rightarrow> Some (processing_error rid (key_error rid) now s1)
                | Some st \<Rightarrow>
                    Some (s1\<lparr>status_tracker := (status_tracker s1)(rid \<mapsto>
                                st\<lparr>status := Complete, completed_at := Some now,
                                   result := Some full_response\<rparr>),
                             queue_stats := (queue_stats s1)
                                \<lparr>total_processed := total_processed (queue_stats s1) + 1,
                                 current_request_id := None\<rparr>,
                             worker := W_Idle\<rparr>))))"

text \<open>The completion call, or the iteration of its stream, raises with message
  \<open>msg\<close>.\<close>

definition llm_fail :: "string \<Rightarrow> string \<Rightarrow> server \<Rightarrow> server option" where
  "llm_fail msg now s =
     (case worker s of
        W_Idle \<Rightarrow> None
      | W_Busy rid full_response \<Rightarrow> Some (processing_error rid msg now s))"

subsection \<open>The stream generators\<close>

text \<open>\<open>GET /stream/{request_id}\<close>: an unknown identifier is answered at once with the
  not-found object; otherwise a new \<open>event_generator\<close> is returned, which has not run
  yet.\<close>

definition stream_response :: "request_id \<Rightarrow> server \<Rightarrow> server" where
  "stream_response rid s =
     (if rid \<notin> dom (status_tracker s) then s
      else s\<lparr>streams := streams s @
              [\<lparr>protocol = Minimal, h_request_id = rid, pc = H_Queued None, emitted = [],
                sleeping = None\<rparr>]\<rparr>)"

definition emit :: "sse_event list \<Rightarrow> stream_handler \<Rightarrow> stream_handler" where
  "emit evs h = h\<lparr>emitted := emitted h @ evs\<rparr>"

text \<open>The arguments of \<open>asyncio.sleep\<close> in the two generators: in the loop that polls
  while the request is queued, and in the loop that waits for the relay.\<close>

definition poll_interval :: "protocol \<Rightarrow> rat" where
  "poll_interval p = (case p of Minimal \<Rightarrow> 5 / 10 | OpenAI \<Rightarrow> 3 / 10)"

definition relay_interval :: "protocol \<Rightarrow> rat" where
  "relay_interval p = (case p of Minimal \<Rightarrow> 1 / 10 | OpenAI \<Rightarrow> 5 / 100)"

text \<open>\<open>while request_id not in stream_chunks: sleep\<close>, then
  \<open>chunk_queue = stream_chunks[request_id]\<close>: the generator keeps the queue object.\<close>

definition wait_for_relay :: "server \<Rightarrow> stream_handler \<Rightarrow> stream_handler" where
  "wait_for_relay s h =
     (case stream_chunks s (h_request_id h) of
        None \<Rightarrow> h\<lparr>pc := H_WaitRelay, sleeping := Some (relay_interval (protocol h))\<rparr>
      | Some a \<Rightarrow> h\<lparr>pc := H_Drain a, sleeping := None\<rparr>)"

text \<open>\<open>status.error or "Unknown error"\<close>.\<close>

definition error_or_unknown :: "string option \<Rightarrow> string" where
  "error_or_unknown e =
     (case e of None \<Rightarrow> ''Unknown error'' | Some m \<Rightarrow> if m = [] then ''Unknown error'' else m)"

text \<open>
  The lines between the polling loop and the loop that drains the relay, run without
  suspension on the status record \<open>st\<close> read at their start: the error event and
  \<open>return\<close> for a failed request, otherwise the wait for the relay.
\<close>

definition check_error :: "server \<Rightarrow> RequestStatus \<Rightarrow> stream_handler \<Rightarrow> stream_handler" where
  "check_error s st h =
     (if status st = Error
      then (emit [case protocol h of
                    Minimal \<Rightarrow> ErrorEvent (error st)
                  | OpenAI \<Rightarrow> ErrorChunk (error_or_unknown (error st))] h)
             \<lparr>pc := H_Closed, sleeping := None\<rparr>
      else wait_for_relay s h)"

text \<open>
  One wake-up of the loop \<open>while status_tracker[request_id].status == "queued"\<close>, down
  to the next suspension. \<open>event_generator\<close> yields the queue size on every pass, and
  when the loop is left it goes on to the error check at once.
  \<open>openai_stream_generator\<close> compares the queue size with \<open>last_position\<close> first, and
  when the loop is left it yields the comment \<open>: queue_position=0\<close> and is suspended
  there; the status is read again when it resumes. A pass that stays in the loop ends
  in \<open>asyncio.sleep\<close> with the poll interval of the variant; nothing is read between
  the \<open>yield\<close> of the pass and this sleep, so the two suspensions are one here.
\<close>

definition poll_queued :: "server \<Rightarrow> RequestStatus \<Rightarrow> nat option \<Rightarrow> stream_handler \<Rightarrow> stream_handler" where
  "poll_queued s st last_position h =
     (case protocol h of
        Minimal \<Rightarrow>
          if status st = Queued
          then (emit [Position (qsize s)] h)\<lparr>sleeping := Some (poll_interval Minimal)\<rparr>
          else check_error s st h
      | OpenAI \<Rightarrow>
          if status st = Queued then
            (let current_position = qsize s in
             (if Some current_position \<noteq> last_position
              then (emit [QueuePosition current_position] h)\<lparr>pc := H_Queued (Some current_position)\<rparr>
              else h)\<lparr>sleeping := Some (poll_interval OpenAI)\<rparr>)
          else (emit [QueuePosition 0] h)\<lparr>pc := H_Left, sleeping := None\<rparr>)"

text \<open>What a generator yields for an item taken from the relay, and whether the item
  ends the loop.\<close>

definition relay_events :: "protocol \<Rightarrow> relay_item \<Rightarrow> sse_event list \<times> bool" where
  "relay_events p x =
     (case x of
        EndMarker \<Rightarrow> (case p of Minimal \<Rightarrow> [Done] | OpenAI \<Rightarrow> [FinishChunk, DoneSentinel], True)
      | ErrorMarker m \<Rightarrow> (case p of Minimal \<Rightarrow> [ErrorEvent (Some m)] | OpenAI \<Rightarrow> [ErrorChunk m], True)
      | Fragment t \<Rightarrow> (case p of Minimal \<Rightarrow> [Chunk t] | OpenAI \<Rightarrow> [ContentChunk t], False))"

text \<open>
  A generator resumes and runs to its next suspension. The result is \<open>None\<close> when it
  cannot resume: it has finished, or it waits in \<open>chunk_queue.get()\<close> on an empty
  queue.
\<close>

definition stream_step :: "server \<Rightarrow> stream_handler \<Rightarrow> (server \<times> stream_handler) option" where
  "stream_step s h =
     (case pc h of
        H_Start \<Rightarrow>
          (case status_tracker s (h_request_id h) of
             None \<Rightarrow> None
           | Some st \<Rightarrow>
               Some (s, (emit [QueueEntered (queue_entered_position st)] h)
                          \<lparr>pc := H_Queued None, sleeping := None\<rparr>))
      | H_Queued last_position \<Rightarrow>
          (case status_tracker s (h_request_id h) of
             None \<Rightarrow> None
           | Some st \<Rightarrow> Some (s, poll_queued s st last_position h))
      | H_Left \<Rightarrow>
          (case status_tracker s (h_request_id h) of
             None \<Rightarrow> None
           | Some st \<Rightarrow> Some (s, check_error s st h))
      | H_WaitRelay \<Rightarrow> Some (s, wait_for_relay s h)
      | H_Drain a \<Rightarrow>
          (if a < length (relays s) then
             (case relay_get (relays s ! a) of
                None \<Rightarrow> None
              | Some (x, q) \<Rightarrow>
                  (case relay_events (protocol h) x of
                     (evs, terminal) \<Rightarrow>
                       Some (s\<lparr>relays := (relays s)[a := q]\<rparr>,
                             (emit evs h)\<lparr>pc := (if terminal then H_Cleanup else H_Drain a),
                                           sleeping := None\<rparr>)))
           else None)
      | H_Cleanup \<Rightarrow>
          Some (s\<lparr>stream_chunks := (stream_chunks s)(h_request_id h := None)\<rparr>,
                h\<lparr>pc := H_Closed, sleeping := None\<rparr>)
      | H_Closed \<Rightarrow> None)"

definition stream_resume :: "nat \<Rightarrow> server \<Rightarrow> server option" where
  "stream_resume i s =
     (if i < length (streams s) then
        (case stream_step s (streams s ! i) of
           None \<Rightarrow> None
         | Some (s', h') \<Rightarrow> Some (s'\<lparr>streams := (streams s')[i := h']\<rparr>))
      else None)"

subsection \<open>The transition system\<close>

text \<open>
  What can happen next. The two admissions carry the request body and the identifier
  drawn for it; an identifier already in the status tracker is not drawn again
  (\<open>uuid4\<close> values are taken to be unique).
\<close>

datatype event =
    QueueAdd request_data request_id
  | ChatCompletions request_data request_id
  | StreamOpen request_id
  | StreamResume nat
  | WorkerGet
  | WorkerTimeout
  | LLMChunk llm_chunk
  | LLMEnd
  | LLMFail string

fun step :: "validator \<Rightarrow> string \<Rightarrow> event \<Rightarrow> server \<Rightarrow> server option" where
  "step conv now (QueueAdd body rid) s =
     (if rid \<in> dom (status_tracker s) then None else Some (snd (post_queue_add conv body rid now s)))"
| "step conv now (ChatCompletions body rid) s =
     (if rid \<in> dom (status_tracker s) then None else Some (snd (post_chat_completions conv body rid now s)))"
| "step conv now (StreamOpen rid) s = Some (stream_response rid s)"
| "step conv now (StreamResume i) s = stream_resume i s"
| "step conv now WorkerGet s = worker_get now s"
| "step conv now WorkerTimeout s = worker_timeout s"
| "step conv now (LLMChunk c) s = llm_chunk c now s"
| "step conv now LLMEnd s = llm_end now s"
| "step conv now (LLMFail msg) s = llm_fail msg now s"

text \<open>A run: the events in order, each with the clock reading of its step. \<open>None\<close>
  when some event of the list cannot happen in the state reached.\<close>

fun run :: "validator \<Rightarrow> (string \<times> event) list \<Rightarrow> server \<Rightarrow> server option" where
  "run conv [] s = Some s"
| "run conv ((now, e) # es) s = (case step conv now e s of None \<Rightarrow> None | Some s' \<Rightarrow> run conv es s')"

definition reachable :: "validator \<Rightarrow> server \<Rightarrow> bool" where
  "reachable conv s = (\<exists>es. run conv es init = Some s)"

subsection \<open>Vocabulary of the properties\<close>

text \<open>A successful admission through either endpoint.\<close>

definition admitted :: "validator \<Rightarrow> request_data \<Rightarrow> request_id \<Rightarrow> string \<Rightarrow> server \<Rightarrow> QueueResponse \<Rightarrow> server \<Rightarrow> bool" where
  "admitted conv body rid now s resp s' =
     (post_queue_add conv body rid now s = (Inr resp, s') \<or>
      post_chat_completions conv body rid now s = (Inr resp, s'))"

text \<open>The position stored in the status record of a request.\<close>

definition entered_position :: "server \<Rightarrow> request_id \<Rightarrow> nat option" where
  "entered_position s rid =
     (case status_tracker s rid of None \<Rightarrow> None | Some st \<Rightarrow> queue_entered_position st)"

subsection \<open>Concrete requests and runs\<close>

definition hello_body :: request_data where
  "hello_body =
     [(''client_id'', JStr ''ui''),
      (''messages'', JList [JObj [(''role'', JStr ''user''), (''content'', JStr ''Hello'')]]),
      (''model'', JStr ''m'')]"

definition after_one :: server where
  "after_one = snd (post_queue_add strict hello_body ''r1'' ''t1'' init)"

definition after_two :: server where
  "after_two = snd (post_queue_add strict hello_body ''r2'' ''t2'' after_one)"

definition after_three :: server where
  "after_three = snd (post_queue_add strict hello_body ''r3'' ''t3'' after_two)"

text \<open>
  A body fails a field declaration when the field is required and absent, or when it
  is present with a value that the library refuses for the annotation; \<open>null\<close> is not
  put to the library for an \<open>Optional\<close> field. A body is refused for a request class
  when it fails one of its declarations.
\<close>

definition field_refused :: "validator \<Rightarrow> request_data \<Rightarrow> field_decl \<Rightarrow> bool" where
  "field_refused conv body f =
     (case f of
        (name, ty, nullable, dflt) \<Rightarrow>
          (case map_of body name of
             None \<Rightarrow> dflt = None
           | Some v \<Rightarrow> \<not> (nullable \<and> v = JNull) \<and> conv ty v = None))"

definition refused :: "validator \<Rightarrow> field_decl list \<Rightarrow> request_data \<Rightarrow> bool" where
  "refused conv decls body = list_ex (field_refused conv body) decls"

text \<open>A library that accepts at least the values of the annotated shape.\<close>

definition accepts_conforming :: "validator \<Rightarrow> bool" where
  "accepts_conforming conv = (\<forall>ty v. conforms ty v \<longrightarrow> conv ty v \<noteq> None)"

text \<open>
  A library that, beyond the strict one, takes the numbers 0 and 1 for a truth
  value.\<close>

definition lenient :: validator where
  "lenient ty v =
     (case (ty, v) of
        (TBool, JInt i) \<Rightarrow> if i = 0 then Some (JBool False) else if i = 1 then Some (JBool True) else None
      | _ \<Rightarrow> strict ty v)"

definition stream_flag_body :: request_data where
  "stream_flag_body =
     [(''client_id'', JStr ''ui''), (''messages'', JList []), (''model'', JStr ''m''),
      (''stream'', JInt 1)]"

definition empty_messages_body :: request_data where
  "empty_messages_body =
     [(''client_id'', JStr ''ui''), (''messages'', JList []), (''model'', JStr ''m'')]"

definition odd_messages_body :: request_data where
  "odd_messages_body =
     [(''client_id'', JStr ''ui''), (''messages'', JList [JObj [(''foo'', JInt 1)]]),
      (''model'', JStr ''m'')]"

definition no_client_body :: request_data where
  "no_client_body =
     [(''messages'', JList [JObj [(''role'', JStr ''user''), (''content'', JStr ''Hello'')]]),
      (''model'', JStr ''mistral-7b'')]"

text \<open>Auxiliary notions for the case analysis of a step.\<close>

definition new_stream :: "protocol \<Rightarrow> request_id \<Rightarrow> stream_handler" where
  "new_stream p rid = \<lparr>protocol = p, h_request_id = rid,
      pc = (case p of Minimal \<Rightarrow> H_Queued None | OpenAI \<Rightarrow> H_Start), emitted = [],
      sleeping = None\<rparr>"

definition is_fragment :: "relay_item \<Rightarrow> bool" where
  "is_fragment x = (case x of Fragment _ \<Rightarrow> True | _ \<Rightarrow> False)"

definition take_item :: "nat \<Rightarrow> server \<Rightarrow> server" where
  "take_item a s = s\<lparr>relays := (relays s)[a := (relays s ! a)\<lparr>taken := Suc (taken (relays s ! a))\<rparr>]\<rparr>"

text \<open>A generator that has left the polling loop and stands before the error
  check.\<close>

definition at_error_check :: "stream_handler \<Rightarrow> bool" where
  "at_error_check h =
     (case pc h of H_Left \<Rightarrow> True | H_Queued lp \<Rightarrow> protocol h = Minimal | _ \<Rightarrow> False)"

text \<open>The generator goes on to the wait for the relay: it is in that loop already, or it
  stands before the error check of a request that is past the queue and has not
  failed.\<close>

definition to_relay :: "server \<Rightarrow> stream_handler \<Rightarrow> bool" where
  "to_relay s h =
     (pc h = H_WaitRelay \<or>
      (at_error_check h \<and>
       (case status_tracker s (h_request_id h) of
          None \<Rightarrow> False
        | Some st \<Rightarrow> status st \<noteq> Error \<and> (pc h = H_Left \<or> status st \<noteq> Queued))))"

subsection \<open>Invariants of the reachable states\<close>

definition lifecycle_of :: "server \<Rightarrow> request_id \<Rightarrow> lifecycle option" where
  "lifecycle_of s r = map_option status (status_tracker s r)"

definition finished :: "server \<Rightarrow> request_id \<Rightarrow> bool" where
  "finished s r = (lifecycle_of s r = Some Complete \<or> lifecycle_of s r = Some Error)"

definition open_relay :: "relay \<Rightarrow> bool" where
  "open_relay q = list_all is_fragment (items q)"

definition worker_inv :: "server \<Rightarrow> bool" where
  "worker_inv s =
     (case worker s of
        W_Idle \<Rightarrow>
          current_request_id (queue_stats s) = None \<and>
          (\<forall>r. lifecycle_of s r \<noteq> Some Processing)
      | W_Busy rid acc \<Rightarrow>
          current_request_id (queue_stats s) = Some rid \<and>
          lifecycle_of s rid = Some Processing \<and>
          (\<forall>r. lifecycle_of s r = Some Processing \<longrightarrow> r = rid) \<and>
          (\<exists>a. stream_chunks s rid = Some a \<and> a < length (relays s) \<and> open_relay (relays s ! a)))"

definition queue_inv :: "server \<Rightarrow> bool" where
  "queue_inv s =
     (distinct (map item_request_id (request_queue s)) \<and>
      (\<forall>it \<in> set (request_queue s). lifecycle_of s (item_request_id it) = Some Queued))"

definition relay_inv :: "server \<Rightarrow> bool" where
  "relay_inv s = (\<forall>r a. stream_chunks s r = Some a \<longrightarrow> a < length (relays s))"

definition handler_ok :: "server \<Rightarrow> stream_handler \<Rightarrow> bool" where
  "handler_ok s h =
     (lifecycle_of s (h_request_id h) \<noteq> None \<and>
      (case pc h of
         H_Left \<Rightarrow> lifecycle_of s (h_request_id h) \<noteq> Some Queued
       | H_WaitRelay \<Rightarrow> lifecycle_of s (h_request_id h) \<noteq> Some Queued
       | H_Drain a \<Rightarrow>
           a < length (relays s) \<and> lifecycle_of s (h_request_id h) \<noteq> Some Queued \<and>
           (lifecycle_of s (h_request_id h) = Some Processing \<longrightarrow>
              stream_chunks s (h_request_id h) = Some a)
       | H_Cleanup \<Rightarrow> finished s (h_request_id h)
       | _ \<Rightarrow> True))"

definition stream_inv :: "server \<Rightarrow> bool" where
  "stream_inv s = (\<forall>i < length (streams s). handler_ok s (streams s ! i))"

definition inv :: "server \<Rightarrow> bool" where
  "inv s = (worker_inv s \<and> queue_inv s \<and> relay_inv s \<and> stream_inv s)"

definition processing_ids :: "server \<Rightarrow> request_id set" where
  "processing_ids s = {r. lifecycle_of s r = Some Processing}"

definition hello_data :: request_data where
  "hello_data = hello_body @ drop 3 (map (\<lambda>(n, t, b, d). (n, the d)) QueueRequest)"

definition run_one_processing :: "(string \<times> event) list" where
  "run_one_processing = [(''t1'', QueueAdd hello_body ''r1''), (''t2'', QueueAdd hello_body ''r2''), (''t3'', WorkerGet)]"

text \<open>The request an event admits: an admission whose body passes validation.\<close>

definition admission_of :: "validator \<Rightarrow> event \<Rightarrow> request_id option" where
  "admission_of conv e =
     (case e of
        QueueAdd body rid \<Rightarrow>
          (case validate conv QueueRequest body of Inl _ \<Rightarrow> None | Inr _ \<Rightarrow> Some rid)
      | ChatCompletions body rid \<Rightarrow>
          (case validate conv OpenAIChatRequest body of Inl _ \<Rightarrow> None | Inr _ \<Rightarrow> Some rid)
      | _ \<Rightarrow> None)"

definition is_terminal_event :: "sse_event \<Rightarrow> bool" where
  "is_terminal_event ev =
     (case ev of Done \<Rightarrow> True | ErrorEvent _ \<Rightarrow> True | DoneSentinel \<Rightarrow> True
      | ErrorChunk _ \<Rightarrow> True | _ \<Rightarrow> False)"

definition terminal_count :: "sse_event list \<Rightarrow> nat" where
  "terminal_count evs = length (filter is_terminal_event evs)"

fun queue_positions :: "sse_event list \<Rightarrow> nat list" where
  "queue_positions [] = []"
| "queue_positions (QueuePosition n # evs) = n # queue_positions evs"
| "queue_positions (_ # evs) = queue_positions evs"

definition last_position :: "sse_event list \<Rightarrow> nat option" where
  "last_position evs =
     (if queue_positions evs = [] then None else Some (last (queue_positions evs)))"

definition stream_ended :: "stream_handler \<Rightarrow> bool" where
  "stream_ended h = (pc h = H_Cleanup \<or> pc h = H_Closed)"

definition emitted_ok :: "stream_handler \<Rightarrow> bool" where
  "emitted_ok h =
     ((if stream_ended h
       then terminal_count (emitted h) = 1 \<and> emitted h \<noteq> [] \<and> is_terminal_event (last (emitted h))
       else terminal_count (emitted h) = 0) \<and>
      (pc h = H_Start \<longrightarrow> emitted h = []) \<and>
      (protocol h = OpenAI \<longrightarrow>
         (\<forall>lp. pc h = H_Queued lp \<longrightarrow>
            lp = last_position (emitted h) \<and> distinct_adj (queue_positions (emitted h)))))"

definition emitted_inv :: "server \<Rightarrow> bool" where
  "emitted_inv s = (\<forall>i < length (streams s). emitted_ok (streams s ! i))"

text \<open>Two requests admitted; the worker has taken the first; a minimal stream is open
  on the second and has polled twice.\<close>

definition run_minimal_polls :: "(string \<times> event) list" where
  "run_minimal_polls =
     run_one_processing @
     [(''t4'', StreamOpen ''r2''), (''t5'', StreamResume 0), (''t6'', StreamResume 0)]"

text \<open>The same with the second request admitted through \<open>/v1/chat/completions\<close> with
  \<open>stream\<close> set.\<close>

definition chat_body :: request_data where
  "chat_body =
     [(''model'', JStr ''m''),
      (''messages'', JList [JObj [(''role'', JStr ''user''), (''content'', JStr ''Hello'')]]),
      (''stream'', JBool True)]"

definition chat_data :: request_data where
  "chat_data = [(''model'', JStr ''m''),
      (''messages'', JList [JObj [(''role'', JStr ''user''), (''content'', JStr ''Hello'')]]),
      (''temperature'', JFloat (7 / 10)), (''max_tokens'', JNull), (''top_p'', JFloat 1),
      (''top_k'', JNull), (''frequency_penalty'', JFloat 0), (''presence_penalty'', JFloat 0),
      (''repeat_penalty'', JNull), (''stop'', JNull), (''logit_bias'', JNull), (''seed'', JNull),
      (''stream'', JBool True), (''tools'', JNull), (''tool_choice'', JNull), (''user'', JNull)]"

definition run_openai_polls :: "(string \<times> event) list" where
  "run_openai_polls =
     [(''t1'', QueueAdd hello_body ''r1''), (''t2'', ChatCompletions chat_body ''r2''),
      (''t3'', WorkerGet), (''t4'', StreamResume 0), (''t5'', StreamResume 0)]"

text \<open>
  What the non-streaming branch of \<open>openai_chat_completions\<close> returns: the timeout
  object, the error object with a message, or the completion object, of which the
  identifier, the creation time, the model and the content are kept.
\<close>

datatype chat_response =
    TimeoutError
  | ServerError string
  | ChatCompletion request_id string string "string option"

text \<open>
  The polling loop of that branch, as a function of what its passes observe: each
  element is the status record read by the loop condition and the reading of the event
  loop's clock from that pass. A clock reading is a floating-point number, which is a
  real number; the difference of two readings is computed in floating-point arithmetic
  and is rounded, so the subtraction is a parameter: \<open>fsub t start_time\<close> is the value
  of \<open>t - start_time\<close>. \<open>None\<close> means that the loop is still running after the listed
  passes.
\<close>

fun chat_completions_poll ::
  "(real \<Rightarrow> real \<Rightarrow> real) \<Rightarrow> request_id \<Rightarrow> string \<Rightarrow> real \<Rightarrow> (RequestStatus \<times> real) list \<Rightarrow>
     chat_response option" where
  "chat_completions_poll fsub rid model start_time [] = None"
| "chat_completions_poll fsub rid model start_time ((st, t) # obs) =
     (if status st = Queued \<or> status st = Processing then
        (if fsub t start_time > 300 then Some TimeoutError
         else chat_completions_poll fsub rid model start_time obs)
      else if status st = Error then Some (ServerError (error_or_unknown (error st)))
      else Some (ChatCompletion rid (created_at st) model (result st)))"

text \<open>The answer the loop gives when it stops at an observation.\<close>

definition poll_answer :: "request_id \<Rightarrow> string \<Rightarrow> RequestStatus \<Rightarrow> chat_response" where
  "poll_answer rid model st =
     (case status st of
        Complete \<Rightarrow> ChatCompletion rid (created_at st) model (result st)
      | Error \<Rightarrow> ServerError (error_or_unknown (error st))
      | _ \<Rightarrow> TimeoutError)"

definition pending :: "RequestStatus \<Rightarrow> bool" where
  "pending st = (status st = Queued \<or> status st = Processing)"

definition queued_record :: RequestStatus where
  "queued_record = \<lparr>status = Queued, client_id = ''openai_compat'', created_at = ''t0'',
     started_at = None, completed_at = None, result = None, error = None,
     queue_entered_position = Some 3\<rparr>"

definition complete_record :: RequestStatus where
  "complete_record = \<lparr>status = Complete, client_id = ''openai_compat'', created_at = ''t0'',
     started_at = Some ''t1'', completed_at = Some ''t2'', result = Some ''Hello world'',
     error = None, queue_entered_position = Some 1\<rparr>"

definition stuck_queued :: "(RequestStatus \<times> real) list" where
  "stuck_queued = [(queued_record, 10), (queued_record, 200), (queued_record, 310.5)]"

definition soon_complete :: "(RequestStatus \<times> real) list" where
  "soon_complete = [(queued_record, 10), (complete_record, 10.1)]"

text \<open>The streams opened for a request.\<close>

definition streams_of :: "server \<Rightarrow> request_id \<Rightarrow> nat set" where
  "streams_of s r = {i. i < length (streams s) \<and> h_request_id (streams s ! i) = r}"

text \<open>A request that the worker has taken from the queue.\<close>

definition dequeued :: "server \<Rightarrow> request_id \<Rightarrow> bool" where
  "dequeued s r = (lifecycle_of s r = Some Processing \<or> finished s r)"

text \<open>The relay entry of a dequeued request is in \<open>stream_chunks\<close> as long as no stream
  opened for the request has finished.\<close>

definition entry_inv :: "server \<Rightarrow> bool" where
  "entry_inv s =
     (\<forall>r. dequeued s r \<and> (\<forall>i \<in> streams_of s r. pc (streams s ! i) \<noteq> H_Closed)
          \<longrightarrow> stream_chunks s r \<noteq> None)"

text \<open>Two requests; a minimal stream follows the first to its end marker; the second is
  processed with no stream opened for it.\<close>

definition run_two_done :: "(string \<times> event) list" where
  "run_two_done =
     [(''t1'', QueueAdd hello_body ''r1''), (''t2'', QueueAdd hello_body ''r2''),
      (''t3'', WorkerGet), (''t4'', StreamOpen ''r1''), (''t5'', StreamResume 0),
      (''t6'', LLMChunk [Some ''Hello'']), (''t7'', LLMEnd), (''t8'', StreamResume 0),
      (''t9'', StreamResume 0), (''t10'', WorkerGet), (''t11'', LLMChunk [Some ''Hi'']),
      (''t12'', LLMEnd)]"

text \<open>The requests admitted along a run, in the order of their admission.\<close>

fun admissions :: "validator \<Rightarrow> (string \<times> event) list \<Rightarrow> request_id list" where
  "admissions conv [] = []"
| "admissions conv ((now, e) # es) =
     (case admission_of conv e of None \<Rightarrow> admissions conv es | Some rid \<Rightarrow> rid # admissions conv es)"






text \<open>The relay queue of a request: the object in \<open>stream_chunks\<close> under its identifier,
  or the object a stream of the request is draining.\<close>

definition holds_relay :: "server \<Rightarrow> request_id \<Rightarrow> nat \<Rightarrow> bool" where
  "holds_relay s r a =
     (stream_chunks s r = Some a \<or> (\<exists>i \<in> streams_of s r. pc (streams s ! i) = H_Drain a))"

text \<open>Only dequeued requests have a relay queue, and requests and relay queues
  correspond one to one.\<close>

definition own_inv :: "server \<Rightarrow> bool" where
  "own_inv s =
     ((\<forall>r a. holds_relay s r a \<longrightarrow> dequeued s r \<and> a < length (relays s)) \<and>
      (\<forall>r a r' a'. holds_relay s r a \<and> holds_relay s r' a' \<longrightarrow> (r = r') = (a = a')))"

section \<open>Properties\<close>

subsection \<open>Admission and queue position\<close>

lemma admit_position:
  "admit client d rid now s = (resp, s') \<Longrightarrow>
     resp_queue_position resp = qsize s + 1 \<and> entered_position s' rid = Some (qsize s + 1) \<and>
     qsize s' = qsize s + 1"
  by (auto simp: admit_def Let_def entered_position_def qsize_def)

lemma admitted_position:
  assumes "admitted conv body rid now s resp s'"
  shows "resp_queue_position resp = qsize s + 1 \<and> entered_position s' rid = Some (qsize s + 1) \<and>
     qsize s' = qsize s + 1"
proof -
  from assms consider
      (add) "post_queue_add conv body rid now s = (Inr resp, s')"
    | (chat) "post_chat_completions conv body rid now s = (Inr resp, s')"
    by (auto simp: admitted_def)
  then show ?thesis
  proof cases
    case add
    then obtain d where "admit (str_field d ''client_id'') d rid now s = (resp, s')"
      by (auto simp: post_queue_add_def add_to_queue_def split: sum.splits prod.splits)
    then show ?thesis by (rule admit_position)
  next
    case chat
    then obtain d s1 where a: "admit ''openai_compat'' d rid now s = (resp, s1)"
      and s': "s' = s1 \<or> s' = s1\<lparr>streams := streams s1 @
                        [\<lparr>protocol = OpenAI, h_request_id = rid, pc = H_Start, emitted = [],
                          sleeping = None\<rparr>]\<rparr>"
      by (auto simp: post_chat_completions_def split: sum.splits prod.splits if_splits)
    from admit_position[OF a] s' show ?thesis
      by (auto simp: entered_position_def qsize_def)
  qed
qed

lemma validate_hello_body:
  "validate strict QueueRequest hello_body =
     Inr (hello_body @ drop 3 (map (\<lambda>(n, t, b, d). (n, the d)) QueueRequest))"
  by (simp add: QueueRequest_def hello_body_def strict_def)

lemma admitted_hello_body:
  "admitted strict hello_body r t s (projr (fst (post_queue_add strict hello_body r t s)))
     (snd (post_queue_add strict hello_body r t s))"
  by (simp add: admitted_def post_queue_add_def validate_hello_body split: prod.splits)

text \<open>
  C8. A successful admission, through \<open>/queue/add\<close> or \<open>/v1/chat/completions\<close>, returns
  the queue depth measured just before the insertion plus one and stores the same
  value in the new status record. Three admissions in a row with no dequeue in
  between therefore return depth + 1, depth + 2 and depth + 3: positions 1, 2, 3 on an
  empty queue.
\<close>

theorem admission_positions:
  assumes "admitted conv b1 r1 t1 s0 p1 s1"
    and "admitted conv b2 r2 t2 s1 p2 s2"
    and "admitted conv b3 r3 t3 s2 p3 s3"
  shows "resp_queue_position p1 = qsize s0 + 1 \<and> entered_position s1 r1 = Some (qsize s0 + 1) \<and>
         resp_queue_position p2 = qsize s0 + 2 \<and> entered_position s2 r2 = Some (qsize s0 + 2) \<and>
         resp_queue_position p3 = qsize s0 + 3 \<and> entered_position s3 r3 = Some (qsize s0 + 3)"
  using admitted_position[OF assms(1)] admitted_position[OF assms(2)] admitted_position[OF assms(3)]
  by simp

theorem admission_positions_witness:
  "admitted strict hello_body ''r1'' ''t1'' init
     (projr (fst (post_queue_add strict hello_body ''r1'' ''t1'' init))) after_one \<and>
   admitted strict hello_body ''r2'' ''t2'' after_one
     (projr (fst (post_queue_add strict hello_body ''r2'' ''t2'' after_one))) after_two \<and>
   admitted strict hello_body ''r3'' ''t3'' after_two
     (projr (fst (post_queue_add strict hello_body ''r3'' ''t3'' after_two))) after_three \<and>
   resp_queue_position (projr (fst (post_queue_add strict hello_body ''r1'' ''t1'' init))) = 1 \<and>
   entered_position after_one ''r1'' = Some 1 \<and>
   resp_queue_position (projr (fst (post_queue_add strict hello_body ''r2'' ''t2'' after_one))) = 2 \<and>
   entered_position after_two ''r2'' = Some 2 \<and>
   resp_queue_position (projr (fst (post_queue_add strict hello_body ''r3'' ''t3'' after_two))) = 3 \<and>
   entered_position after_three ''r3'' = Some 3"
proof -
  have a1: "admitted strict hello_body ''r1'' ''t1'' init
     (projr (fst (post_queue_add strict hello_body ''r1'' ''t1'' init))) after_one"
    unfolding after_one_def by (rule admitted_hello_body)
  have a2: "admitted strict hello_body ''r2'' ''t2'' after_one
     (projr (fst (post_queue_add strict hello_body ''r2'' ''t2'' after_one))) after_two"
    unfolding after_two_def by (rule admitted_hello_body)
  have a3: "admitted strict hello_body ''r3'' ''t3'' after_two
     (projr (fst (post_queue_add strict hello_body ''r3'' ''t3'' after_two))) after_three"
    unfolding after_three_def by (rule admitted_hello_body)
  have q: "qsize init = 0" by (simp add: qsize_def init_def)
  from admission_positions[OF a1 a2 a3] a1 a2 a3 q show ?thesis by simp
qed

subsection \<open>Validation at admission\<close>

lemma validate_field_refused:
  "isl (validate_field conv body f) = field_refused conv body f"
  by (cases f) (simp add: field_refused_def split: option.splits)

lemma validate_refused: "isl (validate conv fs body) = refused conv fs body"
proof (induction fs)
  case Nil
  show ?case by (simp add: refused_def)
next
  case (Cons f fs)
  show ?case
  proof (cases "validate_field conv body f")
    case (Inl e)
    with validate_field_refused[of conv body f] show ?thesis by (simp add: refused_def)
  next
    case (Inr kv)
    with validate_field_refused[of conv body f] have "\<not> field_refused conv body f" by simp
    with Inr Cons.IH show ?thesis
      by (cases "validate conv fs body") (simp_all add: refused_def)
  qed
qed

lemma refused_required:
  assumes "map_of body ''client_id'' = None \<or> map_of body ''messages'' = None \<or>
           map_of body ''model'' = None"
  shows "refused conv QueueRequest body"
proof -
  obtain rest where q: "QueueRequest =
      (''client_id'', TStr, False, None) # (''messages'', TDictList, False, None) #
      (''model'', TStr, False, None) # rest"
    by (simp add: QueueRequest_def)
  from assms show ?thesis unfolding q refused_def
    by (auto simp: field_refused_def)
qed

lemma field_refused_mono:
  assumes "accepts_conforming conv" and "field_refused conv body f"
  shows "field_refused strict body f"
proof -
  obtain name ty nullable dflt where f: "f = (name, ty, nullable, dflt)" by (cases f)
  have "strict ty v = None" if "conv ty v = None" for v
  proof (cases "conforms ty v")
    case True
    with assms(1) have "conv ty v \<noteq> None" by (simp add: accepts_conforming_def)
    with that show ?thesis by simp
  next
    case False
    then show ?thesis by (simp add: strict_def)
  qed
  with assms(2) show ?thesis unfolding f
    by (auto simp: field_refused_def split: option.splits)
qed

lemma refused_mono:
  assumes "accepts_conforming conv" and "refused conv fs body"
  shows "refused strict fs body"
  using assms(2) field_refused_mono[OF assms(1)]
  unfolding refused_def list_ex_iff by blast

lemma QueueRequest_messages:
  assumes "(name, ty, nullable, dflt) \<in> set QueueRequest" and "name = ''messages''"
  shows "ty = TDictList"
  using assms by (auto simp: QueueRequest_def)

lemma field_refused_messages:
  assumes "accepts_conforming conv" and "list_all is_dict xs" and "f \<in> set QueueRequest"
    and "field_refused conv ((''messages'', JList xs) # body) f"
  shows "field_refused conv body f"
proof -
  obtain name ty nullable dflt where f: "f = (name, ty, nullable, dflt)" by (cases f)
  show ?thesis
  proof (cases "name = ''messages''")
    case False
    with assms(4) show ?thesis unfolding f by (simp add: field_refused_def)
  next
    case True
    with assms(3) have "ty = TDictList" unfolding f by (rule QueueRequest_messages)
    with assms(2) have "conforms ty (JList xs)" by simp
    with assms(1) have "conv ty (JList xs) \<noteq> None" by (simp add: accepts_conforming_def)
    with assms(4) True show ?thesis unfolding f by (simp add: field_refused_def)
  qed
qed

text \<open>
  C5, as amended. \<open>/queue/add\<close> answers a body with a validation error, and leaves the
  server state as it was (nothing enqueued, no status record, no counter changed),
  exactly when the body is refused for \<open>QueueRequest\<close>: a required field is absent, or
  a supplied field has a value that the library refuses for its declared type. A body
  without \<open>client_id\<close>, \<open>messages\<close> or \<open>model\<close> is refused by every library. Every
  other body is admitted: the request is put at the end of the queue, a status record
  \<open>queued\<close> is created with the position depth + 1, which is also returned, and the
  counter of received requests goes up by one. The declared type of \<open>messages\<close>,
  \<open>list[dict]\<close>, constrains neither the length of the list nor the keys of its objects:
  for a library that accepts every value of the declared shape, a body whose supplied
  fields have their declared shapes is admitted, and so is an admitted body in which
  the message list is replaced by any list of objects, the empty one included.
\<close>

theorem queue_add_validation:
  "(refused conv QueueRequest body \<longrightarrow>
      (\<exists>e. post_queue_add conv body rid now s = (Inl e, s))) \<and>
   (\<not> refused conv QueueRequest body \<longrightarrow>
      (\<exists>d c. post_queue_add conv body rid now s =
         (Inr \<lparr>resp_status = Queued, resp_request_id = rid, resp_queue_position = qsize s + 1\<rparr>,
          s\<lparr>status_tracker := (status_tracker s)(rid \<mapsto>
               \<lparr>status = Queued, client_id = c, created_at = now, started_at = None,
                completed_at = None, result = None, error = None,
                queue_entered_position = Some (qsize s + 1)\<rparr>),
            request_queue := request_queue s @
               [\<lparr>item_request_id = rid, item_client_id = c, item_request_data = d\<rparr>],
            queue_stats := (queue_stats s)\<lparr>total_received := total_received (queue_stats s) + 1\<rparr>\<rparr>))) \<and>
   (map_of body ''client_id'' = None \<or> map_of body ''messages'' = None \<or>
    map_of body ''model'' = None \<longrightarrow> refused conv QueueRequest body) \<and>
   (accepts_conforming conv \<and> \<not> refused strict QueueRequest body \<longrightarrow>
      \<not> refused conv QueueRequest body) \<and>
   (accepts_conforming conv \<and> list_all is_dict xs \<and> \<not> refused conv QueueRequest body \<longrightarrow>
      \<not> refused conv QueueRequest ((''messages'', JList xs) # body))"
proof (intro conjI impI)
  assume "refused conv QueueRequest body"
  with validate_refused[of conv QueueRequest body] obtain e where
    "validate conv QueueRequest body = Inl e" by (cases "validate conv QueueRequest body") simp_all
  then show "\<exists>e. post_queue_add conv body rid now s = (Inl e, s)"
    by (simp add: post_queue_add_def)
next
  assume "\<not> refused conv QueueRequest body"
  with validate_refused[of conv QueueRequest body] obtain d where
    "validate conv QueueRequest body = Inr d" by (cases "validate conv QueueRequest body") simp_all
  then have "post_queue_add conv body rid now s =
         (Inr \<lparr>resp_status = Queued, resp_request_id = rid, resp_queue_position = qsize s + 1\<rparr>,
          s\<lparr>status_tracker := (status_tracker s)(rid \<mapsto>
               \<lparr>status = Queued, client_id = str_field d ''client_id'', created_at = now,
                started_at = None, completed_at = None, result = None, error = None,
                queue_entered_position = Some (qsize s + 1)\<rparr>),
            request_queue := request_queue s @
               [\<lparr>item_request_id = rid, item_client_id = str_field d ''client_id'',
                 item_request_data = d\<rparr>],
            queue_stats := (queue_stats s)\<lparr>total_received := total_received (queue_stats s) + 1\<rparr>\<rparr>)"
    by (simp add: post_queue_add_def add_to_queue_def admit_def Let_def)
  then show "\<exists>d c. post_queue_add conv body rid now s =
         (Inr \<lparr>resp_status = Queued, resp_request_id = rid, resp_queue_position = qsize s + 1\<rparr>,
          s\<lparr>status_tracker := (status_tracker s)(rid \<mapsto>
               \<lparr>status = Queued, client_id = c, created_at = now, started_at = None,
                completed_at = None, result = None, error = None,
                queue_entered_position = Some (qsize s + 1)\<rparr>),
            request_queue := request_queue s @
               [\<lparr>item_request_id = rid, item_client_id = c, item_request_data = d\<rparr>],
            queue_stats := (queue_stats s)\<lparr>total_received := total_received (queue_stats s) + 1\<rparr>\<rparr>)"
    by blast
next
  assume "map_of body ''client_id'' = None \<or> map_of body ''messages'' = None \<or>
    map_of body ''model'' = None"
  then show "refused conv QueueRequest body" by (rule refused_required)
next
  assume a: "accepts_conforming conv \<and> \<not> refused strict QueueRequest body"
  show "\<not> refused conv QueueRequest body"
  proof
    assume "refused conv QueueRequest body"
    with a have "accepts_conforming conv" "refused conv QueueRequest body" by simp_all
    then have "refused strict QueueRequest body" by (rule refused_mono)
    with a show False by simp
  qed
next
  assume a: "accepts_conforming conv \<and> list_all is_dict xs \<and> \<not> refused conv QueueRequest body"
  show "\<not> refused conv QueueRequest ((''messages'', JList xs) # body)"
  proof
    assume "refused conv QueueRequest ((''messages'', JList xs) # body)"
    then obtain f where f: "f \<in> set QueueRequest"
      "field_refused conv ((''messages'', JList xs) # body) f"
      unfolding refused_def list_ex_iff by blast
    from a have "accepts_conforming conv" "list_all is_dict xs" by simp_all
    then have "field_refused conv body f" using f by (rule field_refused_messages)
    with f(1) have "refused conv QueueRequest body" unfolding refused_def list_ex_iff by blast
    with a show False by simp
  qed
qed

lemma accepts_conforming_lenient: "accepts_conforming lenient"
  by (auto simp: accepts_conforming_def lenient_def strict_def split: ftype.splits json.splits)

lemmas refused_eval = refused_def field_refused_def QueueRequest_def strict_def lenient_def

theorem queue_add_validation_witness:
  "refused strict QueueRequest no_client_body \<and>
   post_queue_add strict no_client_body ''r1'' ''t1'' init = (Inl (Missing ''client_id''), init) \<and>
   \<not> refused lenient QueueRequest stream_flag_body \<and>
   fst (post_queue_add lenient stream_flag_body ''r1'' ''t1'' init) =
     Inr \<lparr>resp_status = Queued, resp_request_id = ''r1'', resp_queue_position = 1\<rparr> \<and>
   \<not> refused lenient QueueRequest odd_messages_body \<and>
   \<not> refused strict QueueRequest ((''messages'', JList []) # hello_body)"
proof -
  have m: "map_of no_client_body ''client_id'' = None" by (simp add: no_client_body_def)
  have r1: "refused strict QueueRequest no_client_body"
    using queue_add_validation[of strict no_client_body] m by blast
  with queue_add_validation[of strict no_client_body "''r1''" "''t1''" init]
  obtain e where e: "post_queue_add strict no_client_body ''r1'' ''t1'' init = (Inl e, init)"
    by blast
  have "validate strict QueueRequest no_client_body = Inl (Missing ''client_id'')"
    by (simp add: QueueRequest_def no_client_body_def)
  then have "fst (post_queue_add strict no_client_body ''r1'' ''t1'' init) = Inl (Missing ''client_id'')"
    by (simp add: post_queue_add_def)
  with e have 1: "post_queue_add strict no_client_body ''r1'' ''t1'' init =
      (Inl (Missing ''client_id''), init)" by simp
  have r2: "\<not> refused lenient QueueRequest stream_flag_body"
    by (simp add: refused_eval stream_flag_body_def)
  with queue_add_validation[of lenient stream_flag_body "''r1''" "''t1''" init]
  have "\<exists>x. post_queue_add lenient stream_flag_body ''r1'' ''t1'' init =
      (Inr \<lparr>resp_status = Queued, resp_request_id = ''r1'',
            resp_queue_position = qsize init + 1\<rparr>, x)"
    by blast
  then have 2: "fst (post_queue_add lenient stream_flag_body ''r1'' ''t1'' init) =
      Inr \<lparr>resp_status = Queued, resp_request_id = ''r1'', resp_queue_position = 1\<rparr>"
    by (auto simp: qsize_def init_def)
  have "\<not> refused strict QueueRequest odd_messages_body"
    by (simp add: refused_eval odd_messages_body_def)
  with queue_add_validation[of lenient odd_messages_body] accepts_conforming_lenient
  have 3: "\<not> refused lenient QueueRequest odd_messages_body" by blast
  have "accepts_conforming strict" by (simp add: accepts_conforming_def strict_def)
  moreover have "\<not> refused strict QueueRequest hello_body"
    by (simp add: refused_eval hello_body_def)
  ultimately have 4: "\<not> refused strict QueueRequest ((''messages'', JList []) # hello_body)"
    using queue_add_validation[of strict hello_body _ _ _ "[]"] by simp
  from r1 1 r2 2 3 4 show ?thesis by simp
qed

text \<open>
  The claim as stated fails: a body with an empty message list, and one whose messages
  are objects of no known shape, are both admitted. The request is enqueued, gets a
  status record, and the counter of received requests goes up.
\<close>

theorem queue_add_accepts_empty_messages:
  "fst (post_queue_add strict empty_messages_body ''r1'' ''t1'' init) =
     Inr \<lparr>resp_status = Queued, resp_request_id = ''r1'', resp_queue_position = 1\<rparr> \<and>
   map item_request_id (request_queue (snd (post_queue_add strict empty_messages_body ''r1'' ''t1'' init))) = [''r1''] \<and>
   ''r1'' \<in> dom (status_tracker (snd (post_queue_add strict empty_messages_body ''r1'' ''t1'' init))) \<and>
   total_received (queue_stats (snd (post_queue_add strict empty_messages_body ''r1'' ''t1'' init))) = 1 \<and>
   fst (post_queue_add strict odd_messages_body ''r1'' ''t1'' init) =
     Inr \<lparr>resp_status = Queued, resp_request_id = ''r1'', resp_queue_position = 1\<rparr> \<and>
   map item_request_id (request_queue (snd (post_queue_add strict odd_messages_body ''r1'' ''t1'' init))) = [''r1'']"
proof -
  have 1: "\<exists>d. validate strict QueueRequest empty_messages_body = Inr d"
    by (simp add: QueueRequest_def empty_messages_body_def strict_def)
  have 2: "\<exists>d. validate strict QueueRequest odd_messages_body = Inr d"
    by (simp add: QueueRequest_def odd_messages_body_def strict_def)
  from 1 2 show ?thesis
    by (auto simp: post_queue_add_def add_to_queue_def admit_def Let_def qsize_def init_def)
qed

subsection \<open>The shape of a step\<close>

lemma admit_fields:
  "request_queue (snd (admit c d rid now s)) = request_queue s @
      [\<lparr>item_request_id = rid, item_client_id = c, item_request_data = d\<rparr>]"
  "status_tracker (snd (admit c d rid now s)) = (status_tracker s)(rid \<mapsto>
      \<lparr>status = Queued, client_id = c, created_at = now, started_at = None,
                completed_at = None, result = None, error = None,
                queue_entered_position = Some (qsize s + 1)\<rparr>)"
  "stream_chunks (snd (admit c d rid now s)) = stream_chunks s"
  "relays (snd (admit c d rid now s)) = relays s"
  "worker (snd (admit c d rid now s)) = worker s"
  "streams (snd (admit c d rid now s)) = streams s"
  "queue_stats (snd (admit c d rid now s)) =
      (queue_stats s)\<lparr>total_received := total_received (queue_stats s) + 1\<rparr>"
  by (simp_all add: admit_def Let_def)

lemma snd_post_queue_add:
  "snd (post_queue_add conv body rid now s) =
     (case validate conv QueueRequest body of
        Inl e \<Rightarrow> s
      | Inr d \<Rightarrow> snd (admit (str_field d ''client_id'') d rid now s))"
  by (simp add: post_queue_add_def add_to_queue_def split: sum.splits prod.splits)

lemma snd_post_chat_completions:
  "snd (post_chat_completions conv body rid now s) =
     (case validate conv OpenAIChatRequest body of
        Inl e \<Rightarrow> s
      | Inr d \<Rightarrow>
          if truthy_field d ''stream''
          then (snd (admit ''openai_compat'' d rid now s))\<lparr>streams := streams s @ [new_stream OpenAI rid]\<rparr>
          else snd (admit ''openai_compat'' d rid now s))"
  by (simp add: post_chat_completions_def new_stream_def admit_fields split: sum.splits prod.splits)
     (simp add: admit_def Let_def)

lemma step_cases [consumes 1, case_names same admit admit_stream opened resume lost get norelay nostatus chunk finish fail]:
  assumes "step conv now e s = Some s'"
  obtains
    (same) "s' = s" "admission_of conv e = None" "e \<noteq> WorkerGet" "e \<noteq> LLMEnd"
      "\<forall>m. e \<noteq> LLMFail m" "\<forall>i. e \<noteq> StreamResume i"
  | (admit) c d rid where "rid \<notin> dom (status_tracker s)" "s' = snd (admit c d rid now s)"
      "admission_of conv e = Some rid"
  | (admit_stream) d rid where "rid \<notin> dom (status_tracker s)"
      "s' = (snd (admit ''openai_compat'' d rid now s))\<lparr>streams := streams s @ [new_stream OpenAI rid]\<rparr>"
      "admission_of conv e = Some rid"
  | (opened) rid where "rid \<in> dom (status_tracker s)"
      "s' = s\<lparr>streams := streams s @ [new_stream Minimal rid]\<rparr>" "e = StreamOpen rid"
  | (resume) i s1 h' where "i < length (streams s)" "stream_step s (streams s ! i) = Some (s1, h')"
      "s' = s1\<lparr>streams := (streams s1)[i := h']\<rparr>" "e = StreamResume i"
  | (lost) queue_item rest where "worker s = W_Idle" "request_queue s = queue_item # rest"
      "status_tracker s (item_request_id queue_item) = None"
  | (get) queue_item rest st where "worker s = W_Idle" "request_queue s = queue_item # rest"
      "status_tracker s (item_request_id queue_item) = Some st"
      "s' = s\<lparr>request_queue := rest,
              status_tracker := (status_tracker s)(item_request_id queue_item \<mapsto>
                          st\<lparr>status := Processing, started_at := Some now\<rparr>),
              queue_stats := (queue_stats s)\<lparr>current_request_id := Some (item_request_id queue_item)\<rparr>,
              stream_chunks := (stream_chunks s)(item_request_id queue_item \<mapsto> length (relays s)),
              relays := relays s @ [\<lparr>items = [], taken = 0\<rparr>],
              worker := W_Busy (item_request_id queue_item) []\<rparr>"
      "e = WorkerGet"
  | (norelay) rid acc where "worker s = W_Busy rid acc" "stream_chunks s rid = None"
  | (nostatus) rid acc where "worker s = W_Busy rid acc" "status_tracker s rid = None"
  | (chunk) rid acc content a where "worker s = W_Busy rid acc" "stream_chunks s rid = Some a"
      "content \<noteq> []" "\<exists>c. e = LLMChunk c \<and> chunk_content c = Some content"
      "s' = s\<lparr>relays := (relays s)[a := relay_put (Fragment content) (relays s ! a)],
              worker := W_Busy rid (acc @ content)\<rparr>"
  | (finish) rid acc a st where "worker s = W_Busy rid acc" "stream_chunks s rid = Some a"
      "status_tracker s rid = Some st" "e = LLMEnd"
      "s' = s\<lparr>relays := (relays s)[a := relay_put EndMarker (relays s ! a)],
              status_tracker := (status_tracker s)(rid \<mapsto>
                                st\<lparr>status := Complete, completed_at := Some now,
                                   result := Some acc\<rparr>),
              queue_stats := (queue_stats s)
                                \<lparr>total_processed := total_processed (queue_stats s) + 1,
                                 current_request_id := None\<rparr>,
              worker := W_Idle\<rparr>"
  | (fail) rid acc a st msg where "worker s = W_Busy rid acc" "stream_chunks s rid = Some a"
      "status_tracker s rid = Some st" "e = LLMFail msg"
      "s' = s\<lparr>relays := (relays s)[a := relay_put (ErrorMarker msg) (relays s ! a)],
              status_tracker := (status_tracker s)(rid \<mapsto>
                   st\<lparr>status := Error, completed_at := Some now, error := Some msg\<rparr>),
              queue_stats := (queue_stats s)\<lparr>total_errors := total_errors (queue_stats s) + 1,
                                               current_request_id := None\<rparr>,
              worker := W_Idle\<rparr>"
proof (cases e)
  case (QueueAdd body rid)
  with assms have f: "rid \<notin> dom (status_tracker s)" and s': "s' = snd (post_queue_add conv body rid now s)"
    by (auto split: if_splits)
  show ?thesis
  proof (cases "validate conv QueueRequest body")
    case (Inl err)
    then have "s' = s" unfolding s' snd_post_queue_add by simp
    moreover have "admission_of conv e = None" using Inl QueueAdd by (simp add: admission_of_def)
    ultimately show ?thesis using QueueAdd by (intro same) simp_all
  next
    case (Inr d)
    then have "s' = snd (admit (str_field d ''client_id'') d rid now s)"
      unfolding s' snd_post_queue_add by simp
    moreover have "admission_of conv e = Some rid" using Inr QueueAdd by (simp add: admission_of_def)
    ultimately show ?thesis using f by (intro admit)
  qed
next
  case (ChatCompletions body rid)
  with assms have f: "rid \<notin> dom (status_tracker s)" and s': "s' = snd (post_chat_completions conv body rid now s)"
    by (auto split: if_splits)
  show ?thesis
  proof (cases "validate conv OpenAIChatRequest body")
    case (Inl err)
    then have "s' = s" unfolding s' snd_post_chat_completions by simp
    moreover have "admission_of conv e = None" using Inl ChatCompletions by (simp add: admission_of_def)
    ultimately show ?thesis using ChatCompletions by (intro same) simp_all
  next
    case (Inr d)
    have a: "admission_of conv e = Some rid" using Inr ChatCompletions by (simp add: admission_of_def)
    show ?thesis
    proof (cases "truthy_field d ''stream''")
      case True
      with Inr have "s' = (snd (admit ''openai_compat'' d rid now s))\<lparr>streams := streams s @ [new_stream OpenAI rid]\<rparr>"
        unfolding s' snd_post_chat_completions by simp
      with f show ?thesis using a by (intro admit_stream)
    next
      case False
      with Inr have "s' = snd (admit ''openai_compat'' d rid now s)"
        unfolding s' snd_post_chat_completions by simp
      with f show ?thesis using a by (intro admit)
    qed
  qed
next
  case (StreamOpen rid)
  with assms have s': "s' = stream_response rid s" by simp
  show ?thesis
  proof (cases "rid \<in> dom (status_tracker s)")
    case True
    then have "s' = s\<lparr>streams := streams s @ [new_stream Minimal rid]\<rparr>"
      unfolding s' by (simp add: stream_response_def new_stream_def)
    with True show ?thesis using StreamOpen by (intro opened)
  next
    case False
    then have "s' = s" unfolding s' by (simp add: stream_response_def)
    then show ?thesis using StreamOpen by (intro same) (simp_all add: admission_of_def)
  qed
next
  case (StreamResume i)
  with assms have "i < length (streams s)"
    by (auto simp: stream_resume_def split: if_splits)
  moreover from assms StreamResume obtain s1 h' where "stream_step s (streams s ! i) = Some (s1, h')"
    "s' = s1\<lparr>streams := (streams s1)[i := h']\<rparr>"
    by (auto simp: stream_resume_def split: if_splits option.splits)
  ultimately show ?thesis using StreamResume by (intro resume)
next
  case WorkerGet
  with assms have g: "worker_get now s = Some s'" by simp
  then obtain queue_item rest where w: "worker s = W_Idle" and q: "request_queue s = queue_item # rest"
    by (auto simp: worker_get_def split: worker_pc.splits list.splits)
  show ?thesis
  proof (cases "status_tracker s (item_request_id queue_item)")
    case None
    with w q show ?thesis by (rule lost)
  next
    case (Some st)
    with g w q have s': "s' = s\<lparr>request_queue := rest,
              status_tracker := (status_tracker s)(item_request_id queue_item \<mapsto>
                          st\<lparr>status := Processing, started_at := Some now\<rparr>),
              queue_stats := (queue_stats s)\<lparr>current_request_id := Some (item_request_id queue_item)\<rparr>,
              stream_chunks := (stream_chunks s)(item_request_id queue_item \<mapsto> length (relays s)),
              relays := relays s @ [\<lparr>items = [], taken = 0\<rparr>],
              worker := W_Busy (item_request_id queue_item) []\<rparr>"
      by (simp add: worker_get_def Let_def)
    show ?thesis by (rule get[OF w q Some s' WorkerGet])
  qed
next
  case WorkerTimeout
  with assms have "s' = s" by (auto simp: worker_timeout_def split: if_splits)
  then show ?thesis using WorkerTimeout by (intro same) (simp_all add: admission_of_def)
next
  case (LLMChunk c)
  with assms have g: "llm_chunk c now s = Some s'" by simp
  then obtain rid acc where w: "worker s = W_Busy rid acc"
    by (auto simp: llm_chunk_def split: worker_pc.splits)
  show ?thesis
  proof (cases "chunk_content c")
    case None
    with g w have "s' = s" by (simp add: llm_chunk_def)
    then show ?thesis using LLMChunk by (intro same) (simp_all add: admission_of_def)
  next
    case (Some content)
    then have ne: "content \<noteq> []"
      by (auto simp: chunk_content_def split: list.splits option.splits if_splits)
    show ?thesis
    proof (cases "stream_chunks s rid")
      case None
      with w show ?thesis by (rule norelay)
    next
      case (Some a)
      with g w \<open>chunk_content c = Some content\<close>
      have s': "s' = s\<lparr>relays := (relays s)[a := relay_put (Fragment content) (relays s ! a)],
              worker := W_Busy rid (acc @ content)\<rparr>"
        by (simp add: llm_chunk_def put_relay_def)
      have ex: "\<exists>c. e = LLMChunk c \<and> chunk_content c = Some content"
        using LLMChunk \<open>chunk_content c = Some content\<close> by blast
      show ?thesis by (rule chunk[OF w Some ne ex s'])
    qed
  qed
next
  case LLMEnd
  with assms have g: "llm_end now s = Some s'" by simp
  then obtain rid acc where w: "worker s = W_Busy rid acc"
    by (auto simp: llm_end_def split: worker_pc.splits)
  show ?thesis
  proof (cases "stream_chunks s rid")
    case None
    with w show ?thesis by (rule norelay)
  next
    case (Some a)
    note a = this
    show ?thesis
    proof (cases "status_tracker s rid")
      case None
      with w show ?thesis by (rule nostatus)
    next
      case (Some st)
      with g w a have s': "s' = s\<lparr>relays := (relays s)[a := relay_put EndMarker (relays s ! a)],
              status_tracker := (status_tracker s)(rid \<mapsto>
                                st\<lparr>status := Complete, completed_at := Some now,
                                   result := Some acc\<rparr>),
              queue_stats := (queue_stats s)
                                \<lparr>total_processed := total_processed (queue_stats s) + 1,
                                 current_request_id := None\<rparr>,
              worker := W_Idle\<rparr>"
        by (simp add: llm_end_def put_relay_def Let_def)
      show ?thesis by (rule finish[OF w a Some LLMEnd s'])
    qed
  qed
next
  case (LLMFail msg)
  with assms have g: "llm_fail msg now s = Some s'" by simp
  then obtain rid acc where w: "worker s = W_Busy rid acc"
    by (auto simp: llm_fail_def split: worker_pc.splits)
  show ?thesis
  proof (cases "stream_chunks s rid")
    case None
    with w show ?thesis by (rule norelay)
  next
    case (Some a)
    note a = this
    show ?thesis
    proof (cases "status_tracker s rid")
      case None
      with w show ?thesis by (rule nostatus)
    next
      case (Some st)
      with g w a have s': "s' = s\<lparr>relays := (relays s)[a := relay_put (ErrorMarker msg) (relays s ! a)],
              status_tracker := (status_tracker s)(rid \<mapsto>
                   st\<lparr>status := Error, completed_at := Some now, error := Some msg\<rparr>),
              queue_stats := (queue_stats s)\<lparr>total_errors := total_errors (queue_stats s) + 1,
                                               current_request_id := None\<rparr>,
              worker := W_Idle\<rparr>"
        by (simp add: llm_fail_def processing_error_def put_relay_def Let_def)
      show ?thesis by (rule fail[OF w a Some LLMFail s'])
    qed
  qed
qed

lemma stream_step_cases [consumes 1, case_names start queued left error_seen relay_wait relay_found fragment terminal cleanup]:
  assumes "stream_step s h = Some (s1, h')"
  obtains
    (start) st where "pc h = H_Start" "status_tracker s (h_request_id h) = Some st" "s1 = s"
      "h' = h\<lparr>emitted := emitted h @ [QueueEntered (queue_entered_position st)], pc := H_Queued None, sleeping := None\<rparr>"
  | (queued) lp st where "pc h = H_Queued lp" "status_tracker s (h_request_id h) = Some st"
      "status st = Queued" "s1 = s"
      "h' = h\<lparr>emitted := emitted h @
                (case protocol h of
                   Minimal \<Rightarrow> [Position (qsize s)]
                 | OpenAI \<Rightarrow> if Some (qsize s) \<noteq> lp then [QueuePosition (qsize s)] else []),
              pc := H_Queued (case protocol h of Minimal \<Rightarrow> lp | OpenAI \<Rightarrow> Some (qsize s)),
              sleeping := Some (poll_interval (protocol h))\<rparr>"
  | (left) lp st where "pc h = H_Queued lp" "protocol h = OpenAI"
      "status_tracker s (h_request_id h) = Some st" "status st \<noteq> Queued" "s1 = s"
      "h' = h\<lparr>emitted := emitted h @ [QueuePosition 0], pc := H_Left, sleeping := None\<rparr>"
  | (error_seen) st where "at_error_check h" "status_tracker s (h_request_id h) = Some st"
      "status st = Error" "s1 = s"
      "h' = h\<lparr>emitted := emitted h @
                [case protocol h of
                   Minimal \<Rightarrow> ErrorEvent (error st)
                 | OpenAI \<Rightarrow> ErrorChunk (error_or_unknown (error st))],
              pc := H_Closed, sleeping := None\<rparr>"
  | (relay_wait) "to_relay s h"
      "stream_chunks s (h_request_id h) = None" "s1 = s"
      "h' = h\<lparr>pc := H_WaitRelay, sleeping := Some (relay_interval (protocol h))\<rparr>"
  | (relay_found) a where "to_relay s h"
      "stream_chunks s (h_request_id h) = Some a" "s1 = s"
      "h' = h\<lparr>pc := H_Drain a, sleeping := None\<rparr>"
  | (fragment) a t where "pc h = H_Drain a" "a < length (relays s)"
      "taken (relays s ! a) < length (items (relays s ! a))"
      "items (relays s ! a) ! taken (relays s ! a) = Fragment t"
      "s1 = take_item a s"
      "h' = h\<lparr>emitted := emitted h @ [case protocol h of Minimal \<Rightarrow> Chunk t | OpenAI \<Rightarrow> ContentChunk t],
              sleeping := None\<rparr>"
  | (terminal) a x where "pc h = H_Drain a" "a < length (relays s)"
      "taken (relays s ! a) < length (items (relays s ! a))"
      "items (relays s ! a) ! taken (relays s ! a) = x" "\<not> is_fragment x"
      "s1 = take_item a s"
      "h' = h\<lparr>emitted := emitted h @ fst (relay_events (protocol h) x), pc := H_Cleanup, sleeping := None\<rparr>"
  | (cleanup) "pc h = H_Cleanup"
      "s1 = s\<lparr>stream_chunks := (stream_chunks s)(h_request_id h := None)\<rparr>"
      "h' = h\<lparr>pc := H_Closed, sleeping := None\<rparr>"
proof -
  have checked: thesis
    if c: "at_error_check h" and st: "status_tracker s (h_request_id h) = Some st"
      and nq: "pc h = H_Left \<or> status st \<noteq> Queued"
      and s1: "s1 = s" and h': "h' = check_error s st h"
      and r1: "\<And>st. at_error_check h \<Longrightarrow> status_tracker s (h_request_id h) = Some st \<Longrightarrow>
          status st = Error \<Longrightarrow> s1 = s \<Longrightarrow>
          h' = h\<lparr>emitted := emitted h @
                [case protocol h of
                   Minimal \<Rightarrow> ErrorEvent (error st)
                 | OpenAI \<Rightarrow> ErrorChunk (error_or_unknown (error st))],
              pc := H_Closed, sleeping := None\<rparr> \<Longrightarrow> thesis"
      and r2: "to_relay s h \<Longrightarrow> stream_chunks s (h_request_id h) = None \<Longrightarrow> s1 = s \<Longrightarrow>
          h' = h\<lparr>pc := H_WaitRelay, sleeping := Some (relay_interval (protocol h))\<rparr> \<Longrightarrow> thesis"
      and r3: "\<And>a. to_relay s h \<Longrightarrow> stream_chunks s (h_request_id h) = Some a \<Longrightarrow> s1 = s \<Longrightarrow>
          h' = h\<lparr>pc := H_Drain a, sleeping := None\<rparr> \<Longrightarrow> thesis"
    for st thesis
  proof (cases "status st = Error")
    case True
    then have "h' = h\<lparr>emitted := emitted h @
                [case protocol h of
                   Minimal \<Rightarrow> ErrorEvent (error st)
                 | OpenAI \<Rightarrow> ErrorChunk (error_or_unknown (error st))],
              pc := H_Closed, sleeping := None\<rparr>"
      unfolding h' by (simp add: check_error_def emit_def)
    with c st True s1 show ?thesis by (rule r1)
  next
    case False
    with c st nq have pre: "to_relay s h" by (simp add: to_relay_def)
    show ?thesis
    proof (cases "stream_chunks s (h_request_id h)")
      case None
      with False have "h' = h\<lparr>pc := H_WaitRelay, sleeping := Some (relay_interval (protocol h))\<rparr>"
        unfolding h' by (simp add: check_error_def wait_for_relay_def)
      with pre None s1 show ?thesis by (rule r2)
    next
      case (Some a)
      with False have "h' = h\<lparr>pc := H_Drain a, sleeping := None\<rparr>"
        unfolding h' by (simp add: check_error_def wait_for_relay_def)
      with pre Some s1 show ?thesis by (rule r3)
    qed
  qed
  show ?thesis
  proof (cases "pc h")
    case H_Start
    with assms obtain st where st: "status_tracker s (h_request_id h) = Some st"
      by (auto simp: stream_step_def split: option.splits)
    with assms H_Start have "s1 = s"
      "h' = h\<lparr>emitted := emitted h @ [QueueEntered (queue_entered_position st)], pc := H_Queued None, sleeping := None\<rparr>"
      by (simp_all add: stream_step_def emit_def)
    with H_Start st show ?thesis by (rule start)
  next
    case (H_Queued lp)
    with assms obtain st where st: "status_tracker s (h_request_id h) = Some st"
      by (auto simp: stream_step_def split: option.splits)
    with assms H_Queued have s1: "s1 = s" and h': "h' = poll_queued s st lp h"
      by (auto simp: stream_step_def)
    show ?thesis
    proof (cases "status st = Queued")
      case q: True
      have "h' = h\<lparr>emitted := emitted h @
                  (case protocol h of
                     Minimal \<Rightarrow> [Position (qsize s)]
                   | OpenAI \<Rightarrow> if Some (qsize s) \<noteq> lp then [QueuePosition (qsize s)] else []),
                pc := H_Queued (case protocol h of Minimal \<Rightarrow> lp | OpenAI \<Rightarrow> Some (qsize s)),
              sleeping := Some (poll_interval (protocol h))\<rparr>"
        unfolding h' using q H_Queued
        by (cases "protocol h") (auto simp: poll_queued_def emit_def Let_def)
      with H_Queued st q s1 show ?thesis by (rule queued)
    next
      case nq: False
      show ?thesis
      proof (cases "protocol h")
        case Minimal
        with H_Queued have c: "at_error_check h" by (simp add: at_error_check_def)
        from Minimal nq have hc: "h' = check_error s st h"
          unfolding h' by (simp add: poll_queued_def)
        show ?thesis
        proof (rule checked[OF c st _ s1 hc])
          show "pc h = H_Left \<or> status st \<noteq> Queued" using nq by simp
        qed (rule error_seen relay_wait relay_found; assumption)+
      next
        case OpenAI
        with nq have "h' = h\<lparr>emitted := emitted h @ [QueuePosition 0], pc := H_Left, sleeping := None\<rparr>"
          unfolding h' by (simp add: poll_queued_def emit_def)
        with H_Queued OpenAI st nq s1 show ?thesis by (rule left)
      qed
    qed
  next
    case H_Left
    with assms obtain st where st: "status_tracker s (h_request_id h) = Some st"
      by (auto simp: stream_step_def split: option.splits)
    with assms H_Left have s1: "s1 = s" and h': "h' = check_error s st h"
      by (auto simp: stream_step_def)
    from H_Left have c: "at_error_check h" by (simp add: at_error_check_def)
    show ?thesis
    proof (rule checked[OF c st _ s1 h'])
      show "pc h = H_Left \<or> status st \<noteq> Queued" using H_Left by simp
    qed (rule error_seen relay_wait relay_found; assumption)+
  next
    case H_WaitRelay
    with assms have s1: "s1 = s" and h': "h' = wait_for_relay s h"
      by (auto simp: stream_step_def)
    have pre: "to_relay s h" using H_WaitRelay by (simp add: to_relay_def)
    show ?thesis
    proof (cases "stream_chunks s (h_request_id h)")
      case None
      have "h' = h\<lparr>pc := H_WaitRelay, sleeping := Some (relay_interval (protocol h))\<rparr>"
        unfolding h' using None by (simp add: wait_for_relay_def)
      with pre None s1 show ?thesis by (rule relay_wait)
    next
      case (Some a)
      have "h' = h\<lparr>pc := H_Drain a, sleeping := None\<rparr>"
        unfolding h' using Some by (simp add: wait_for_relay_def)
      with pre Some s1 show ?thesis by (rule relay_found)
    qed
next
    case (H_Drain a)
    with assms have a: "a < length (relays s)"
      by (auto simp: stream_step_def split: if_splits)
    with assms H_Drain have t: "taken (relays s ! a) < length (items (relays s ! a))"
      by (auto simp: stream_step_def relay_get_def split: if_splits)
    define x where "x = items (relays s ! a) ! taken (relays s ! a)"
    from assms H_Drain a t have s1: "s1 = take_item a s"
      and h': "h' = (emit (fst (relay_events (protocol h) x)) h)
                      \<lparr>pc := (if snd (relay_events (protocol h) x) then H_Cleanup else H_Drain a),
                      sleeping := None\<rparr>"
      by (auto simp: stream_step_def relay_get_def take_item_def x_def split: prod.splits)
    show ?thesis
    proof (cases x)
      case (Fragment t')
      then have "h' = h\<lparr>emitted := emitted h @ [case protocol h of Minimal \<Rightarrow> Chunk t' | OpenAI \<Rightarrow> ContentChunk t'],
              sleeping := None\<rparr>"
        unfolding h' using H_Drain
        by (cases "protocol h") (simp_all add: relay_events_def emit_def)
      with H_Drain a t Fragment[unfolded x_def] s1 show ?thesis by (intro fragment)
    next
      case EndMarker
      then have "h' = h\<lparr>emitted := emitted h @ fst (relay_events (protocol h) x), pc := H_Cleanup, sleeping := None\<rparr>"
        unfolding h' by (simp add: relay_events_def emit_def)
      moreover have "\<not> is_fragment x" using EndMarker by (simp add: is_fragment_def)
      ultimately show ?thesis using H_Drain a t x_def s1 by (intro terminal[of a x]) simp_all
    next
      case (ErrorMarker m)
      then have "h' = h\<lparr>emitted := emitted h @ fst (relay_events (protocol h) x), pc := H_Cleanup, sleeping := None\<rparr>"
        unfolding h' by (simp add: relay_events_def emit_def)
      moreover have "\<not> is_fragment x" using ErrorMarker by (simp add: is_fragment_def)
      ultimately show ?thesis using H_Drain a t x_def s1 by (intro terminal[of a x]) simp_all
    qed
  next
    case H_Cleanup
    with assms have "s1 = s\<lparr>stream_chunks := (stream_chunks s)(h_request_id h := None)\<rparr>"
        "h' = h\<lparr>pc := H_Closed, sleeping := None\<rparr>"
      by (simp_all add: stream_step_def)
    with H_Cleanup show ?thesis by (rule cleanup)
  next
    case H_Closed
    with assms show ?thesis by (simp add: stream_step_def)
  qed
qed

subsection \<open>The invariant is preserved\<close>

lemma inv_init: "inv init"
  by (simp add: inv_def worker_inv_def queue_inv_def relay_inv_def stream_inv_def init_def lifecycle_of_def)

lemma lifecycle_admit:
  "lifecycle_of (snd (admit c d rid now s)) r = (if r = rid then Some Queued else lifecycle_of s r)"
  by (simp add: lifecycle_of_def admit_fields)

lemma lifecycle_streams_update [simp]:
  "lifecycle_of (s\<lparr>streams := x\<rparr>) = lifecycle_of s"
  by (simp add: lifecycle_of_def fun_eq_iff)

lemma handler_ok_frame:
  assumes "lifecycle_of s' (h_request_id h) = lifecycle_of s (h_request_id h)"
    and "stream_chunks s' (h_request_id h) = stream_chunks s (h_request_id h)"
    and "length (relays s') = length (relays s)"
  shows "handler_ok s' h = handler_ok s h"
  using assms by (simp add: handler_ok_def finished_def split: stream_pc.splits)

lemma worker_inv_admit:
  assumes "worker_inv s" "lifecycle_of s rid = None"
  shows "worker_inv (snd (admit c d rid now s))"
proof (cases "worker s")
  case W_Idle
  with assms show ?thesis
    by (simp add: worker_inv_def admit_fields lifecycle_admit)
next
  case (W_Busy r acc)
  with assms(1) have "lifecycle_of s r = Some Processing" by (simp add: worker_inv_def)
  with assms(2) have "r \<noteq> rid" by (cases "r = rid") simp_all
  with assms W_Busy show ?thesis
    by (simp add: worker_inv_def admit_fields lifecycle_admit)
qed

lemma map_items_nth:
  assumes "map items xs = map items ys"
  shows "length xs = length ys" and "a < length ys \<Longrightarrow> items (xs ! a) = items (ys ! a)"
proof -
  show l: "length xs = length ys" using assms by (rule map_eq_imp_length_eq)
  assume "a < length ys"
  then show "items (xs ! a) = items (ys ! a)"
    using assms l by (metis nth_map)
qed

lemma items_take_item [simp]: "map items (relays (take_item a s)) = map items (relays s)"
proof -
  have "(map items (relays s))[a := items (relays s ! a)] = map items ((relays s)[a := relays s ! a])"
    by (simp only: map_update)
  then show ?thesis by (simp add: take_item_def map_update)
qed

lemma take_item_fields [simp]:
  "worker (take_item a s) = worker s"
  "queue_stats (take_item a s) = queue_stats s"
  "status_tracker (take_item a s) = status_tracker s"
  "stream_chunks (take_item a s) = stream_chunks s"
  "request_queue (take_item a s) = request_queue s"
  "streams (take_item a s) = streams s"
  "length (relays (take_item a s)) = length (relays s)"
  by (simp_all add: take_item_def)

lemma lifecycle_take_item [simp]: "lifecycle_of (take_item a s) = lifecycle_of s"
  by (simp add: lifecycle_of_def fun_eq_iff)

lemma worker_inv_frame:
  assumes "worker s' = worker s"
    and "current_request_id (queue_stats s') = current_request_id (queue_stats s)"
    and "lifecycle_of s' = lifecycle_of s"
    and "stream_chunks s' = stream_chunks s"
    and "map items (relays s') = map items (relays s)"
    and "worker_inv s"
  shows "worker_inv s'"
proof (cases "worker s")
  case W_Idle
  with assms show ?thesis by (simp add: worker_inv_def)
next
  case (W_Busy rid acc)
  with assms(6) obtain a where a: "stream_chunks s rid = Some a" "a < length (relays s)"
      "open_relay (relays s ! a)"
    by (auto simp: worker_inv_def)
  from map_items_nth[OF assms(5)] a have "a < length (relays s')" "open_relay (relays s' ! a)"
    by (simp_all add: open_relay_def)
  with a assms W_Busy show ?thesis by (simp add: worker_inv_def)
qed

lemma worker_inv_step:
  assumes "inv s" and "step conv now e s = Some s'"
  shows "worker_inv s'"
  using assms(2)
proof (cases rule: step_cases)
  case same
  with assms show ?thesis by (simp add: inv_def)
next
  case (admit c d rid)
  from assms have w: "worker_inv s" by (simp add: inv_def)
  from admit(1) have n: "lifecycle_of s rid = None" by (simp add: lifecycle_of_def domIff)
  show ?thesis unfolding admit(2) using w n by (rule worker_inv_admit)
next
  case (admit_stream d rid)
  from assms have w: "worker_inv s" by (simp add: inv_def)
  from admit_stream(1) have n: "lifecycle_of s rid = None" by (simp add: lifecycle_of_def domIff)
  have "worker_inv (snd (admit ''openai_compat'' d rid now s))" using w n by (rule worker_inv_admit)
  then show ?thesis unfolding admit_stream(2)
    by (simp add: worker_inv_def admit_fields split: worker_pc.splits)
next
  case (opened rid)
  from assms have w: "worker_inv s" by (simp add: inv_def)
  then show ?thesis unfolding opened(2) worker_inv_def
    by (auto split: worker_pc.splits)
next
  case (resume i s1 h')
  from assms have w: "worker_inv s" and si: "stream_inv s" by (simp_all add: inv_def)
  from si resume(1) have ok: "handler_ok s (streams s ! i)" by (simp add: stream_inv_def)
  from resume(2) show ?thesis
  proof (cases rule: stream_step_cases)
    case cleanup
    from ok cleanup(1) have f: "finished s (h_request_id (streams s ! i))"
      by (simp add: handler_ok_def)
    show ?thesis
    proof (cases "worker s")
      case W_Idle
      with w show ?thesis unfolding resume(3) cleanup(2)
        by (simp add: worker_inv_def lifecycle_of_def)
    next
      case (W_Busy rid acc)
      with w have "lifecycle_of s rid = Some Processing" by (simp add: worker_inv_def)
      with f have "h_request_id (streams s ! i) \<noteq> rid"
        by (cases "h_request_id (streams s ! i) = rid") (simp_all add: finished_def)
      with w W_Busy show ?thesis unfolding resume(3) cleanup(2)
        by (simp add: worker_inv_def lifecycle_of_def)
    qed
  qed (rule worker_inv_frame[OF _ _ _ _ _ w]; simp add: resume(3) lifecycle_of_def fun_eq_iff)+
next
  case (lost queue_item rest)
  from assms have "queue_inv s" by (simp add: inv_def)
  with lost show ?thesis by (auto simp: queue_inv_def lifecycle_of_def)
next
  case (get queue_item rest st)
  from assms have w: "worker_inv s" by (simp add: inv_def)
  show ?thesis using w get(1) unfolding get(4) worker_inv_def
    by (auto simp: lifecycle_of_def open_relay_def)
next
  case (norelay rid acc)
  from assms have "worker_inv s" by (simp add: inv_def)
  with norelay show ?thesis by (auto simp: worker_inv_def)
next
  case (nostatus rid acc)
  from assms have "worker_inv s" by (simp add: inv_def)
  with nostatus show ?thesis by (auto simp: worker_inv_def lifecycle_of_def)
next
  case (chunk rid acc content a)
  from assms have w: "worker_inv s" by (simp add: inv_def)
  show ?thesis using w chunk(1,2) unfolding chunk(5) worker_inv_def
    by (auto simp: lifecycle_of_def open_relay_def relay_put_def is_fragment_def)
next
  case (finish rid acc a st)
  from assms have w: "worker_inv s" by (simp add: inv_def)
  show ?thesis using w finish(1,2,3) unfolding finish(5) worker_inv_def
    by (auto simp: lifecycle_of_def)
next
  case (fail rid acc a st msg)
  from assms have w: "worker_inv s" by (simp add: inv_def)
  show ?thesis using w fail(1,2,3) unfolding fail(5) worker_inv_def
    by (auto simp: lifecycle_of_def)
qed

lemma inv_parts:
  assumes "inv s"
  shows "worker_inv s" "queue_inv s" "relay_inv s" "stream_inv s"
  using assms by (simp_all add: inv_def)

lemma fresh_lifecycle: "rid \<notin> dom (status_tracker s) \<Longrightarrow> lifecycle_of s rid = None"
  by (simp add: lifecycle_of_def domIff)

lemma queue_invD:
  assumes "queue_inv s" "r \<in> set (map item_request_id (request_queue s))"
  shows "lifecycle_of s r = Some Queued"
proof -
  from assms(2) obtain it where "it \<in> set (request_queue s)" "r = item_request_id it"
    by (auto simp: image_iff)
  with assms(1) show ?thesis by (simp add: queue_inv_def)
qed

lemma queued_not_fresh:
  assumes "queue_inv s" "lifecycle_of s rid = None"
  shows "rid \<notin> set (map item_request_id (request_queue s))"
proof
  assume "rid \<in> set (map item_request_id (request_queue s))"
  with assms(1) have "lifecycle_of s rid = Some Queued" by (rule queue_invD)
  with assms(2) show False by simp
qed

lemma queue_inv_frame:
  assumes "request_queue s' = request_queue s" "lifecycle_of s' = lifecycle_of s" "queue_inv s"
  shows "queue_inv s'"
  using assms by (simp add: queue_inv_def)

lemma queue_inv_admit:
  assumes "queue_inv s" "lifecycle_of s rid = None"
  shows "queue_inv (snd (admit c d rid now s))"
proof -
  from queued_not_fresh[OF assms] have n: "rid \<notin> set (map item_request_id (request_queue s))" .
  have "\<forall>r \<in> set (map item_request_id (request_queue s)). r \<noteq> rid"
    using n by blast
  with assms(1) n show ?thesis
    by (simp add: queue_inv_def admit_fields lifecycle_admit)
qed

lemma busy_processing:
  assumes "worker_inv s" "worker s = W_Busy rid acc"
  shows "lifecycle_of s rid = Some Processing"
  using assms by (simp add: worker_inv_def)

lemma queued_not_busy:
  assumes "worker_inv s" "queue_inv s" "worker s = W_Busy rid acc"
  shows "rid \<notin> set (map item_request_id (request_queue s))"
proof
  assume "rid \<in> set (map item_request_id (request_queue s))"
  with assms(2) have "lifecycle_of s rid = Some Queued" by (rule queue_invD)
  with busy_processing[OF assms(1,3)] show False by simp
qed

lemma queue_inv_terminal:
  assumes "worker_inv s" "queue_inv s" "worker s = W_Busy rid acc"
    and "request_queue s' = request_queue s"
    and "\<And>r. r \<noteq> rid \<Longrightarrow> lifecycle_of s' r = lifecycle_of s r"
  shows "queue_inv s'"
proof -
  from queued_not_busy[OF assms(1-3)] have "\<forall>r \<in> set (map item_request_id (request_queue s)). r \<noteq> rid"
    by blast
  with assms(2,4,5) show ?thesis by (simp add: queue_inv_def)
qed

lemma queue_inv_step:
  assumes "inv s" and "step conv now e s = Some s'"
  shows "queue_inv s'"
  using assms(2)
proof (cases rule: step_cases)
  case same
  with assms show ?thesis by (simp add: inv_def)
next
  case (admit c d rid)
  show ?thesis unfolding admit(2)
    using inv_parts(2)[OF assms(1)] fresh_lifecycle[OF admit(1)] by (rule queue_inv_admit)
next
  case (admit_stream d rid)
  have "queue_inv (snd (admit ''openai_compat'' d rid now s))"
    using inv_parts(2)[OF assms(1)] fresh_lifecycle[OF admit_stream(1)] by (rule queue_inv_admit)
  then show ?thesis unfolding admit_stream(2) by (simp add: queue_inv_def)
next
  case (opened rid)
  show ?thesis unfolding opened(2)
    by (rule queue_inv_frame[OF _ _ inv_parts(2)[OF assms(1)]]) simp_all
next
  case (resume i s1 h')
  from resume(2) show ?thesis
    by (cases rule: stream_step_cases)
       (rule queue_inv_frame[OF _ _ inv_parts(2)[OF assms(1)]]; simp add: resume(3) lifecycle_of_def fun_eq_iff)+
next
  case (lost queue_item rest)
  from inv_parts(2)[OF assms(1)] lost(2) have "lifecycle_of s (item_request_id queue_item) = Some Queued"
    by (simp add: queue_inv_def)
  with lost(3) show ?thesis by (simp add: lifecycle_of_def)
next
  case (get queue_item rest st)
  from inv_parts(2)[OF assms(1)] get(2)
  have d: "item_request_id queue_item \<notin> set (map item_request_id rest)"
    and d': "distinct (map item_request_id rest)"
    and q: "\<forall>r \<in> set (map item_request_id rest). lifecycle_of s r = Some Queued"
    by (simp_all add: queue_inv_def)
  from d have "\<forall>r \<in> set (map item_request_id rest). r \<noteq> item_request_id queue_item" by blast
  with d' q show ?thesis unfolding get(4)
    by (simp add: queue_inv_def lifecycle_of_def)
next
  case (norelay rid acc)
  from inv_parts(1)[OF assms(1)] norelay show ?thesis by (simp add: worker_inv_def)
next
  case (nostatus rid acc)
  from busy_processing[OF inv_parts(1)[OF assms(1)] nostatus(1)] nostatus(2) show ?thesis
    by (simp add: lifecycle_of_def)
next
  case (chunk rid acc content a)
  show ?thesis unfolding chunk(5)
    by (rule queue_inv_frame[OF _ _ inv_parts(2)[OF assms(1)]]) (simp_all add: lifecycle_of_def fun_eq_iff)
next
  case (finish rid acc a st)
  show ?thesis
    by (rule queue_inv_terminal[OF inv_parts(1,2)[OF assms(1)] finish(1)])
       (simp_all add: finish(5) lifecycle_of_def)
next
  case (fail rid acc a st msg)
  show ?thesis
    by (rule queue_inv_terminal[OF inv_parts(1,2)[OF assms(1)] fail(1)])
       (simp_all add: fail(5) lifecycle_of_def)
qed

lemma relay_inv_frame:
  assumes "stream_chunks s' = stream_chunks s" "length (relays s') = length (relays s)" "relay_inv s"
  shows "relay_inv s'"
  using assms by (simp add: relay_inv_def)

lemma relay_inv_step:
  assumes "inv s" and "step conv now e s = Some s'"
  shows "relay_inv s'"
  using assms(2)
proof (cases rule: step_cases)
  case same
  with assms show ?thesis by (simp add: inv_def)
next
  case (admit c d rid)
  show ?thesis unfolding admit(2)
    by (rule relay_inv_frame[OF _ _ inv_parts(3)[OF assms(1)]]) (simp_all add: admit_fields)
next
  case (admit_stream d rid)
  show ?thesis unfolding admit_stream(2)
    by (rule relay_inv_frame[OF _ _ inv_parts(3)[OF assms(1)]]) (simp_all add: admit_fields)
next
  case (opened rid)
  show ?thesis unfolding opened(2)
    by (rule relay_inv_frame[OF _ _ inv_parts(3)[OF assms(1)]]) simp_all
next
  case (resume i s1 h')
  from resume(2) show ?thesis
  proof (cases rule: stream_step_cases)
    case cleanup
    from inv_parts(3)[OF assms(1)] show ?thesis unfolding resume(3) cleanup(2)
      by (simp add: relay_inv_def)
  qed (rule relay_inv_frame[OF _ _ inv_parts(3)[OF assms(1)]]; simp add: resume(3))+
next
  case (lost queue_item rest)
  from inv_parts(2)[OF assms(1)] lost(2) have "lifecycle_of s (item_request_id queue_item) = Some Queued"
    by (simp add: queue_inv_def)
  with lost(3) show ?thesis by (simp add: lifecycle_of_def)
next
  case (get queue_item rest st)
  have "\<And>r a. stream_chunks s r = Some a \<Longrightarrow> a < Suc (length (relays s))"
    using inv_parts(3)[OF assms(1)] by (simp add: relay_inv_def less_Suc_eq)
  then show ?thesis unfolding get(4) by (simp add: relay_inv_def)
next
  case (norelay rid acc)
  from inv_parts(1)[OF assms(1)] norelay show ?thesis by (simp add: worker_inv_def)
next
  case (nostatus rid acc)
  from busy_processing[OF inv_parts(1)[OF assms(1)] nostatus(1)] nostatus(2) show ?thesis
    by (simp add: lifecycle_of_def)
next
  case (chunk rid acc content a)
  show ?thesis unfolding chunk(5)
    by (rule relay_inv_frame[OF _ _ inv_parts(3)[OF assms(1)]]) simp_all
next
  case (finish rid acc a st)
  show ?thesis unfolding finish(5)
    by (rule relay_inv_frame[OF _ _ inv_parts(3)[OF assms(1)]]) simp_all
next
  case (fail rid acc a st msg)
  show ?thesis unfolding fail(5)
    by (rule relay_inv_frame[OF _ _ inv_parts(3)[OF assms(1)]]) simp_all
qed

lemma handler_ok_streams [simp]: "handler_ok (s\<lparr>streams := x\<rparr>) h = handler_ok s h"
  by (simp add: handler_ok_def finished_def split: stream_pc.splits)

lemma handler_ok_mono:
  assumes "handler_ok s h"
    and "lifecycle_of s' (h_request_id h) = lifecycle_of s (h_request_id h)"
    and "length (relays s) \<le> length (relays s')"
    and "lifecycle_of s (h_request_id h) = Some Processing \<Longrightarrow>
           stream_chunks s' (h_request_id h) = stream_chunks s (h_request_id h)"
  shows "handler_ok s' h"
proof (cases "pc h")
  case (H_Drain a)
  with assms show ?thesis by (simp add: handler_ok_def)
qed (use assms in \<open>simp_all add: handler_ok_def finished_def\<close>)

lemma handler_known:
  assumes "handler_ok s h" "lifecycle_of s rid = None"
  shows "h_request_id h \<noteq> rid"
  using assms by (cases "h_request_id h = rid") (simp_all add: handler_ok_def)

lemma stream_invD: "stream_inv s \<Longrightarrow> i < length (streams s) \<Longrightarrow> handler_ok s (streams s ! i)"
  by (simp add: stream_inv_def)

lemma handler_ok_admit:
  assumes "handler_ok s h" "lifecycle_of s rid = None"
  shows "handler_ok (snd (admit c d rid now s)) h"
proof (rule handler_ok_mono[OF assms(1)])
  from handler_known[OF assms] show "lifecycle_of (snd (admit c d rid now s)) (h_request_id h) =
      lifecycle_of s (h_request_id h)"
    by (simp add: lifecycle_admit)
qed (simp_all add: admit_fields)

lemma stream_inv_append:
  assumes "\<And>i. i < length (streams s) \<Longrightarrow> handler_ok s' (streams s ! i)"
    and "handler_ok s' h" and "streams s' = streams s @ [h]"
  shows "stream_inv s'"
  unfolding stream_inv_def
proof (intro allI impI)
  fix i assume "i < length (streams s')"
  with assms(3) have "i < length (streams s) \<or> i = length (streams s)" by auto
  then show "handler_ok s' (streams s' ! i)"
  proof
    assume "i < length (streams s)"
    with assms(1,3) show ?thesis by (simp add: nth_append)
  next
    assume "i = length (streams s)"
    with assms(2,3) show ?thesis by simp
  qed
qed

lemma at_error_check_pc:
  assumes "at_error_check h"
  shows "pc h \<noteq> H_Start" "pc h \<noteq> H_WaitRelay" "pc h \<noteq> H_Drain a" "pc h \<noteq> H_Cleanup"
    "pc h \<noteq> H_Closed"
  using assms by (cases "pc h"; simp add: at_error_check_def)+

lemma to_relay_pc:
  assumes "to_relay s h"
  shows "pc h \<noteq> H_Start" "pc h \<noteq> H_Drain a" "pc h \<noteq> H_Cleanup" "pc h \<noteq> H_Closed"
  using assms by (cases "pc h"; simp add: to_relay_def at_error_check_def)+

lemma to_relay_not_queued:
  assumes "to_relay s h" and "handler_ok s h"
  shows "lifecycle_of s (h_request_id h) \<noteq> Some Queued"
proof (cases "pc h")
  case (H_Queued lp)
  with assms(1) show ?thesis
    by (auto simp: to_relay_def lifecycle_of_def split: option.splits)
qed (use assms in \<open>simp_all add: to_relay_def at_error_check_def handler_ok_def\<close>)

lemma stream_step_self:
  assumes "inv s" and "stream_step s h = Some (s1, h')" and "handler_ok s h"
  shows "handler_ok s1 h'"
  using assms(2)
proof (cases rule: stream_step_cases)
  case (start st)
  with assms(3) show ?thesis by (simp add: handler_ok_def)
next
  case (queued lp st)
  with assms(3) show ?thesis by (simp add: handler_ok_def)
next
  case (left lp st)
  with assms(3) show ?thesis by (simp add: handler_ok_def lifecycle_of_def)
next
  case (error_seen st)
  with assms(3) show ?thesis by (simp add: handler_ok_def)
next
  case relay_wait
  from relay_wait(1) assms(3) have "lifecycle_of s (h_request_id h) \<noteq> Some Queued"
    by (rule to_relay_not_queued)
  with assms(3) show ?thesis unfolding relay_wait(3,4) by (simp add: handler_ok_def)
next
  case (relay_found a)
  from relay_found(1) assms(3) have "lifecycle_of s (h_request_id h) \<noteq> Some Queued"
    by (rule to_relay_not_queued)
  moreover from inv_parts(3)[OF assms(1)] relay_found(2) have "a < length (relays s)"
    by (simp add: relay_inv_def)
  ultimately show ?thesis using assms(3) relay_found(2) unfolding relay_found(3,4)
    by (simp add: handler_ok_def)
next
  case (fragment a t)
  with assms(3) show ?thesis by (simp add: handler_ok_def)
next
  case (terminal a x)
  let ?r = "h_request_id h"
  from assms(3) terminal(1) have k: "lifecycle_of s ?r \<noteq> None" "lifecycle_of s ?r \<noteq> Some Queued"
    and p: "lifecycle_of s ?r = Some Processing \<Longrightarrow> stream_chunks s ?r = Some a"
    by (simp_all add: handler_ok_def)
  have np: "lifecycle_of s ?r \<noteq> Some Processing"
  proof
    assume pr: "lifecycle_of s ?r = Some Processing"
    from inv_parts(1)[OF assms(1)] pr obtain rid acc where w: "worker s = W_Busy rid acc"
      by (cases "worker s") (simp_all add: worker_inv_def)
    with inv_parts(1)[OF assms(1)] pr have "?r = rid" by (simp add: worker_inv_def)
    with inv_parts(1)[OF assms(1)] w p[OF pr] have "open_relay (relays s ! a)"
      by (simp add: worker_inv_def)
    with terminal(3) have "is_fragment (items (relays s ! a) ! taken (relays s ! a))"
      by (simp add: open_relay_def list_all_length)
    with terminal(4,5) show False by simp
  qed
  from k np have "finished s ?r"
    by (cases "lifecycle_of s ?r") (simp_all add: finished_def, case_tac a, simp_all)
  with k show ?thesis unfolding terminal(6,7)
    by (simp add: handler_ok_def finished_def)
next
  case cleanup
  with assms(3) show ?thesis by (simp add: handler_ok_def lifecycle_of_def)
qed

lemma stream_step_others:
  assumes "stream_step s h = Some (s1, h')" and "handler_ok s h" and "handler_ok s g"
  shows "handler_ok s1 g"
  using assms(1)
proof (cases rule: stream_step_cases)
  case cleanup
  from assms(2) cleanup(1) have f: "finished s (h_request_id h)" by (simp add: handler_ok_def)
  show ?thesis
  proof (rule handler_ok_mono[OF assms(3)])
    assume pr: "lifecycle_of s (h_request_id g) = Some Processing"
    with f have "h_request_id g \<noteq> h_request_id h"
      by (cases "h_request_id g = h_request_id h") (simp_all add: finished_def)
    then show "stream_chunks s1 (h_request_id g) = stream_chunks s (h_request_id g)"
      unfolding cleanup(2) by simp
  qed (simp_all add: cleanup(2) lifecycle_of_def)
qed (rule handler_ok_mono[OF assms(3)]; simp)+

lemma stream_inv_resume:
  assumes "inv s" and "i < length (streams s)" and "stream_step s (streams s ! i) = Some (s1, h')"
  shows "stream_inv (s1\<lparr>streams := (streams s1)[i := h']\<rparr>)"
proof -
  from assms(3) have st: "streams s1 = streams s"
    by (cases rule: stream_step_cases) simp_all
  have ok: "handler_ok s (streams s ! i)"
    using inv_parts(4)[OF assms(1)] assms(2) by (rule stream_invD)
  show ?thesis unfolding stream_inv_def
  proof (intro allI impI)
    fix j assume "j < length (streams (s1\<lparr>streams := (streams s1)[i := h']\<rparr>))"
    then have j: "j < length (streams s)" by (simp add: st)
    show "handler_ok (s1\<lparr>streams := (streams s1)[i := h']\<rparr>)
            (streams (s1\<lparr>streams := (streams s1)[i := h']\<rparr>) ! j)"
    proof (cases "j = i")
      case True
      with assms(2) stream_step_self[OF assms(1,3) ok] show ?thesis by (simp add: st)
    next
      case False
      from stream_step_others[OF assms(3) ok stream_invD[OF inv_parts(4)[OF assms(1)] j]] False
      show ?thesis by (simp add: st)
    qed
  qed
qed

lemma stream_inv_same_streams:
  assumes "streams s' = streams s"
    and "\<And>i. i < length (streams s) \<Longrightarrow> handler_ok s' (streams s ! i)"
  shows "stream_inv s'"
  using assms by (simp add: stream_inv_def)

lemma handler_ok_terminal:
  assumes "handler_ok s h"
    and "lifecycle_of s rid = Some Processing"
    and "lifecycle_of s' rid = Some Complete \<or> lifecycle_of s' rid = Some Error"
    and "\<And>r. r \<noteq> rid \<Longrightarrow> lifecycle_of s' r = lifecycle_of s r"
    and "stream_chunks s' = stream_chunks s"
    and "length (relays s') = length (relays s)"
  shows "handler_ok s' h"
proof (cases "h_request_id h = rid")
  case False
  show ?thesis
    by (rule handler_ok_mono[OF assms(1)]) (simp_all add: assms(4)[OF False] assms(5,6))
next
  case True
  from assms(3) have l: "lifecycle_of s' rid \<noteq> None" "lifecycle_of s' rid \<noteq> Some Queued"
    "lifecycle_of s' rid \<noteq> Some Processing" "finished s' rid"
    by (auto simp: finished_def)
  show ?thesis
  proof (cases "pc h")
    case (H_Drain a)
    with assms(1,6) True l show ?thesis by (simp add: handler_ok_def)
  qed (use True l in \<open>simp_all add: handler_ok_def\<close>)
qed

lemma stream_inv_step:
  assumes "inv s" and "step conv now e s = Some s'"
  shows "stream_inv s'"
  using assms(2)
proof (cases rule: step_cases)
  case same
  with assms show ?thesis by (simp add: inv_def)
next
  case (admit c d rid)
  show ?thesis unfolding admit(2)
  proof (rule stream_inv_same_streams)
    fix i assume "i < length (streams s)"
    from stream_invD[OF inv_parts(4)[OF assms(1)] this] fresh_lifecycle[OF admit(1)]
    show "handler_ok (snd (admit c d rid now s)) (streams s ! i)" by (rule handler_ok_admit)
  qed (simp add: admit_fields)
next
  case (admit_stream d rid)
  show ?thesis
  proof (rule stream_inv_append)
    fix i assume "i < length (streams s)"
    from stream_invD[OF inv_parts(4)[OF assms(1)] this] fresh_lifecycle[OF admit_stream(1)]
    have "handler_ok (snd (admit ''openai_compat'' d rid now s)) (streams s ! i)"
      by (rule handler_ok_admit)
    then show "handler_ok s' (streams s ! i)" unfolding admit_stream(2) by simp
  next
    show "handler_ok s' (new_stream OpenAI rid)" unfolding admit_stream(2)
      by (simp add: handler_ok_def new_stream_def lifecycle_admit)
  next
    show "streams s' = streams s @ [new_stream OpenAI rid]" unfolding admit_stream(2) by simp
  qed
next
  case (opened rid)
  show ?thesis
  proof (rule stream_inv_append)
    fix i assume "i < length (streams s)"
    from stream_invD[OF inv_parts(4)[OF assms(1)] this]
    show "handler_ok s' (streams s ! i)" unfolding opened(2) by simp
  next
    from opened(1) show "handler_ok s' (new_stream Minimal rid)" unfolding opened(2)
      by (auto simp: handler_ok_def new_stream_def lifecycle_of_def)
  next
    show "streams s' = streams s @ [new_stream Minimal rid]" unfolding opened(2) by simp
  qed
next
  case (resume i s1 h')
  show ?thesis unfolding resume(3) using assms(1) resume(1,2) by (rule stream_inv_resume)
next
  case (lost queue_item rest)
  from inv_parts(2)[OF assms(1)] lost(2) have "lifecycle_of s (item_request_id queue_item) = Some Queued"
    by (simp add: queue_inv_def)
  with lost(3) show ?thesis by (simp add: lifecycle_of_def)
next
  case (get queue_item rest st)
  let ?rid = "item_request_id queue_item"
  from inv_parts(2)[OF assms(1)] get(2) have q: "lifecycle_of s ?rid = Some Queued"
    by (simp add: queue_inv_def)
  show ?thesis
  proof (rule stream_inv_same_streams)
    fix i assume "i < length (streams s)"
    from stream_invD[OF inv_parts(4)[OF assms(1)] this] have ok: "handler_ok s (streams s ! i)" .
    show "handler_ok s' (streams s ! i)"
    proof (cases "h_request_id (streams s ! i) = ?rid")
      case False
      show ?thesis
        by (rule handler_ok_mono[OF ok]) (use False in \<open>simp_all add: get(4) lifecycle_of_def\<close>)
    next
      case True
      have l': "lifecycle_of s' ?rid = Some Processing"
        unfolding get(4) by (simp add: lifecycle_of_def)
      show ?thesis
      proof (cases "pc (streams s ! i)")
        case H_Left
        with ok True q show ?thesis by (simp add: handler_ok_def)
      next
        case H_WaitRelay
        with ok True q show ?thesis by (simp add: handler_ok_def)
      next
        case (H_Drain a)
        with ok True q show ?thesis by (simp add: handler_ok_def)
      next
        case H_Cleanup
        with ok True q show ?thesis by (simp add: handler_ok_def finished_def)
      qed (use True l' in \<open>simp_all add: handler_ok_def\<close>)
    qed
  qed (simp add: get(4))
next
  case (norelay rid acc)
  from inv_parts(1)[OF assms(1)] norelay show ?thesis by (simp add: worker_inv_def)
next
  case (nostatus rid acc)
  from busy_processing[OF inv_parts(1)[OF assms(1)] nostatus(1)] nostatus(2) show ?thesis
    by (simp add: lifecycle_of_def)
next
  case (chunk rid acc content a)
  show ?thesis
  proof (rule stream_inv_same_streams)
    fix i assume "i < length (streams s)"
    from stream_invD[OF inv_parts(4)[OF assms(1)] this]
    show "handler_ok s' (streams s ! i)"
      by (rule handler_ok_mono) (simp_all add: chunk(5) lifecycle_of_def)
  qed (simp add: chunk(5))
next
  case (finish rid acc a st)
  show ?thesis
  proof (rule stream_inv_same_streams)
    fix i assume "i < length (streams s)"
    from stream_invD[OF inv_parts(4)[OF assms(1)] this] busy_processing[OF inv_parts(1)[OF assms(1)] finish(1)]
    show "handler_ok s' (streams s ! i)"
      by (rule handler_ok_terminal) (simp_all add: finish(5) lifecycle_of_def)
  qed (simp add: finish(5))
next
  case (fail rid acc a st msg)
  show ?thesis
  proof (rule stream_inv_same_streams)
    fix i assume "i < length (streams s)"
    from stream_invD[OF inv_parts(4)[OF assms(1)] this] busy_processing[OF inv_parts(1)[OF assms(1)] fail(1)]
    show "handler_ok s' (streams s ! i)"
      by (rule handler_ok_terminal) (simp_all add: fail(5) lifecycle_of_def)
  qed (simp add: fail(5))
qed

lemma inv_step:
  assumes "inv s" and "step conv now e s = Some s'"
  shows "inv s'"
  unfolding inv_def
  using worker_inv_step[OF assms] queue_inv_step[OF assms] relay_inv_step[OF assms]
    stream_inv_step[OF assms]
  by simp

lemma inv_run:
  assumes "run conv es s = Some s'" and "inv s"
  shows "inv s'"
  using assms
proof (induction es arbitrary: s)
  case Nil
  then show ?case by simp
next
  case (Cons a es)
  obtain now e where a: "a = (now, e)" by (cases a)
  with Cons.prems(1) obtain s1 where s1: "step conv now e s = Some s1" "run conv es s1 = Some s'"
    by (auto split: option.splits)
  from inv_step[OF Cons.prems(2) s1(1)] s1(2) show ?case by (rule Cons.IH[rotated])
qed

lemma inv_reachable: "run conv es init = Some s \<Longrightarrow> inv s"
  by (rule inv_run[OF _ inv_init])

subsection \<open>The worker: one request at a time, failures contained\<close>

lemma post_queue_add_hello:
  "snd (post_queue_add strict hello_body rid now s) = snd (admit ''ui'' hello_data rid now s)"
  apply (simp add: snd_post_queue_add validate_hello_body hello_data_def)
  apply (simp add: str_field_def hello_body_def)
  done

lemma run_one_processing_state:
  "\<exists>s. run strict run_one_processing init = Some s \<and> worker s = W_Busy ''r1'' [] \<and>
       current_request_id (queue_stats s) = Some ''r1'' \<and> total_errors (queue_stats s) = 0 \<and>
       map item_request_id (request_queue s) = [''r2'']"
  by (simp add: run_one_processing_def post_queue_add_hello init_def admit_def Let_def qsize_def worker_get_def)

text \<open>
  C1. In every reachable state the set of requests whose status record is
  \<open>processing\<close> has at most one element, and it is exactly the request named by
  \<open>current_request_id\<close>: empty when that field is \<open>None\<close>, the one identifier
  otherwise. States are those between the uninterrupted blocks of the tasks, the only
  ones another task (a status lookup, a health check) can sample.
\<close>

theorem one_processing_request:
  assumes "run conv es init = Some s"
  shows "processing_ids s = set_option (current_request_id (queue_stats s)) \<and>
         card (processing_ids s) \<le> 1"
proof -
  from inv_reachable[OF assms] have w: "worker_inv s" by (rule inv_parts)
  have "processing_ids s = set_option (current_request_id (queue_stats s))"
  proof (cases "worker s")
    case W_Idle
    with w show ?thesis by (simp add: worker_inv_def processing_ids_def)
  next
    case (W_Busy rid acc)
    with w have c: "current_request_id (queue_stats s) = Some rid"
      and p: "lifecycle_of s rid = Some Processing"
      and u: "\<And>r. lifecycle_of s r = Some Processing \<Longrightarrow> r = rid"
      by (simp_all add: worker_inv_def)
    from p u have "processing_ids s = {rid}" unfolding processing_ids_def by blast
    with c show ?thesis by simp
  qed
  moreover have "card (set_option (current_request_id (queue_stats s))) \<le> 1"
    by (cases "current_request_id (queue_stats s)") simp_all
  ultimately show ?thesis by simp
qed

theorem one_processing_request_witness:
  "\<exists>s. run strict run_one_processing init = Some s \<and>
       current_request_id (queue_stats s) = Some ''r1'' \<and>
       processing_ids s = {''r1''} \<and> card (processing_ids s) \<le> 1"
proof -
  from run_one_processing_state obtain s where s: "run strict run_one_processing init = Some s"
    "current_request_id (queue_stats s) = Some ''r1''" by blast
  from one_processing_request[OF s(1)] s show ?thesis by simp
qed

text \<open>
  C4. Whenever the worker is inside the completion call for a request, a failure of
  the call with message \<open>msg\<close> is a step the worker can take, and it: puts the error
  marker with that message on the request's relay queue, which exists; sets the status
  record to \<open>error\<close> with the message and a completion time; adds one to
  \<open>total_errors\<close>; clears \<open>current_request_id\<close>; and leaves the worker back at the
  head of its loop, from where it dequeues the next queued item if there is one.
\<close>

theorem completion_failure_handled:
  assumes "run conv es init = Some s" and "worker s = W_Busy rid acc"
  shows "\<exists>s' a st.
           step conv now (LLMFail msg) s = Some s' \<and>
           stream_chunks s rid = Some a \<and> a < length (relays s) \<and>
           stream_chunks s' = stream_chunks s \<and>
           relays s' = (relays s)[a := relay_put (ErrorMarker msg) (relays s ! a)] \<and>
           items (relays s' ! a) = items (relays s ! a) @ [ErrorMarker msg] \<and>
           status_tracker s' rid = Some st \<and> status st = Error \<and> error st = Some msg \<and>
           completed_at st = Some now \<and>
           total_errors (queue_stats s') = total_errors (queue_stats s) + 1 \<and>
           current_request_id (queue_stats s') = None \<and>
           worker s' = W_Idle \<and> request_queue s' = request_queue s \<and>
           (request_queue s = [] \<or>
            (\<exists>s''. step conv now' WorkerGet s' = Some s'' \<and>
                   worker s'' = W_Busy (item_request_id (hd (request_queue s))) []))"
proof -
  note i = inv_reachable[OF assms(1)]
  from inv_parts(1)[OF i] assms(2) obtain a where a: "stream_chunks s rid = Some a"
    "a < length (relays s)" by (auto simp: worker_inv_def)
  from busy_processing[OF inv_parts(1)[OF i] assms(2)] obtain st0 where
    st0: "status_tracker s rid = Some st0" by (auto simp: lifecycle_of_def)
  define s' where "s' = s\<lparr>relays := (relays s)[a := relay_put (ErrorMarker msg) (relays s ! a)],
              status_tracker := (status_tracker s)(rid \<mapsto>
                   st0\<lparr>status := Error, completed_at := Some now, error := Some msg\<rparr>),
              queue_stats := (queue_stats s)\<lparr>total_errors := total_errors (queue_stats s) + 1,
                                               current_request_id := None\<rparr>,
              worker := W_Idle\<rparr>"
  have st: "step conv now (LLMFail msg) s = Some s'"
    using assms(2) a st0 by (simp add: llm_fail_def processing_error_def put_relay_def Let_def s'_def)
  have next_item: "request_queue s = [] \<or>
            (\<exists>s''. step conv now' WorkerGet s' = Some s'' \<and>
                   worker s'' = W_Busy (item_request_id (hd (request_queue s))) [])"
  proof (cases "request_queue s")
    case Nil
    then show ?thesis by simp
  next
    case (Cons it rest)
    from inv_step[OF i st] have "queue_inv s'" by (rule inv_parts)
    moreover have q': "request_queue s' = it # rest" using Cons by (simp add: s'_def)
    ultimately have "lifecycle_of s' (item_request_id it) = Some Queued"
      by (simp add: queue_inv_def)
    then obtain st1 where "status_tracker s' (item_request_id it) = Some st1"
      by (auto simp: lifecycle_of_def)
    moreover have "worker s' = W_Idle" by (simp add: s'_def)
    ultimately have "\<exists>s''. worker_get now' s' = Some s'' \<and> worker s'' = W_Busy (item_request_id it) []"
      using q' by (simp add: worker_get_def Let_def)
    with Cons show ?thesis by simp
  qed
  have "items (relays s' ! a) = items (relays s ! a) @ [ErrorMarker msg]"
    using a(2) by (simp add: s'_def relay_put_def)
  with st a next_item show ?thesis
    by (intro exI[of _ s'] exI[of _ a]
          exI[of _ "st0\<lparr>status := Error, completed_at := Some now, error := Some msg\<rparr>"])
       (simp add: s'_def)
qed

theorem completion_failure_handled_witness:
  "\<exists>s s'. run strict run_one_processing init = Some s \<and> worker s = W_Busy ''r1'' [] \<and>
       step strict ''t4'' (LLMFail ''Connection error.'') s = Some s' \<and>
       lifecycle_of s' ''r1'' = Some Error \<and>
       total_errors (queue_stats s') = 1 \<and>
       current_request_id (queue_stats s') = None \<and>
       (\<exists>s''. step strict ''t5'' WorkerGet s' = Some s'' \<and> worker s'' = W_Busy ''r2'' [])"
proof -
  from run_one_processing_state obtain s where s: "run strict run_one_processing init = Some s"
    "worker s = W_Busy ''r1'' []" "total_errors (queue_stats s) = 0"
    "map item_request_id (request_queue s) = [''r2'']" by auto
  from s(4) have q: "request_queue s \<noteq> []" "item_request_id (hd (request_queue s)) = ''r2''"
    by (cases "request_queue s"; simp)+
  from completion_failure_handled[OF s(1,2), of "''t4''" "''Connection error.''" "''t5''"] q s
  show ?thesis by (auto simp: lifecycle_of_def)
qed

lemma queue_positions_append:
  "queue_positions (xs @ ys) = queue_positions xs @ queue_positions ys"
  by (induction xs rule: queue_positions.induct) simp_all

lemma terminal_count_append [simp]:
  "terminal_count (xs @ ys) = terminal_count xs + terminal_count ys"
  by (simp add: terminal_count_def)

lemma terminal_count_simps [simp]:
  "terminal_count [] = 0"
  "terminal_count (ev # evs) = (if is_terminal_event ev then 1 else 0) + terminal_count evs"
  by (simp_all add: terminal_count_def)

lemma terminal_events [simp]:
  "is_terminal_event Done" "is_terminal_event (ErrorEvent e)" "is_terminal_event DoneSentinel"
  "is_terminal_event (ErrorChunk m)" "\<not> is_terminal_event (Position n)"
  "\<not> is_terminal_event (Chunk t)" "\<not> is_terminal_event (QueueEntered p)"
  "\<not> is_terminal_event (QueuePosition n)" "\<not> is_terminal_event (ContentChunk t)"
  "\<not> is_terminal_event FinishChunk"
  by (simp_all add: is_terminal_event_def)

lemma emitted_ok_new_stream: "emitted_ok (new_stream p rid)"
  by (cases p) (simp_all add: emitted_ok_def new_stream_def stream_ended_def last_position_def)

lemma relay_events_terminal:
  assumes "\<not> is_fragment x"
  shows "terminal_count (fst (relay_events p x)) = 1"
    and "fst (relay_events p x) \<noteq> []"
    and "is_terminal_event (last (fst (relay_events p x)))"
  using assms by (cases x; cases p; simp add: relay_events_def is_fragment_def)+

lemma emitted_ok_step:
  assumes "stream_step s h = Some (s1, h')" and "emitted_ok h"
  shows "emitted_ok h'"
  using assms(1)
proof (cases rule: stream_step_cases)
  case (start st)
  with assms(2) show ?thesis
    by (simp add: emitted_ok_def stream_ended_def last_position_def)
next
  case (queued lp st)
  show ?thesis
  proof (cases "protocol h")
    case Minimal
    with assms(2) queued show ?thesis by (simp add: emitted_ok_def stream_ended_def)
  next
    case OpenAI
    with assms(2) queued(1) have lp: "lp = last_position (emitted h)"
      and d: "distinct_adj (queue_positions (emitted h))"
      and t: "terminal_count (emitted h) = 0"
      by (simp_all add: emitted_ok_def stream_ended_def)
    show ?thesis
    proof (cases "Some (qsize s) = lp")
      case True
      with OpenAI lp d t show ?thesis unfolding queued(5)
        by (simp add: emitted_ok_def stream_ended_def)
    next
      case False
      with lp have "queue_positions (emitted h) = [] \<or> last (queue_positions (emitted h)) \<noteq> qsize s"
        by (auto simp: last_position_def)
      with False OpenAI d t show ?thesis unfolding queued(5)
        by (simp add: emitted_ok_def stream_ended_def last_position_def queue_positions_append
            distinct_adj_append_iff)
    qed
  qed
next
  case (left lp st)
  with assms(2) show ?thesis by (simp add: emitted_ok_def stream_ended_def)
next
  case (error_seen st)
  from at_error_check_pc[OF error_seen(1)] assms(2) have "terminal_count (emitted h) = 0"
    by (simp add: emitted_ok_def stream_ended_def)
  then show ?thesis unfolding error_seen(5)
    by (cases "protocol h") (simp_all add: emitted_ok_def stream_ended_def)
next
  case relay_wait
  from to_relay_pc[OF relay_wait(1)] assms(2) have "terminal_count (emitted h) = 0"
    by (simp add: emitted_ok_def stream_ended_def)
  then show ?thesis unfolding relay_wait(4)
    by (simp add: emitted_ok_def stream_ended_def)
next
  case (relay_found a)
  from to_relay_pc[OF relay_found(1)] assms(2) have "terminal_count (emitted h) = 0"
    by (simp add: emitted_ok_def stream_ended_def)
  then show ?thesis unfolding relay_found(4)
    by (simp add: emitted_ok_def stream_ended_def)
next
  case (fragment a t)
  with assms(2) show ?thesis
    by (cases "protocol h") (simp_all add: emitted_ok_def stream_ended_def)
next
  case (terminal a x)
  from terminal(1) assms(2) have "terminal_count (emitted h) = 0"
    by (simp add: emitted_ok_def stream_ended_def)
  with relay_events_terminal[OF terminal(5), of "protocol h"] show ?thesis unfolding terminal(7)
    by (simp add: emitted_ok_def stream_ended_def)
next
  case cleanup
  with assms(2) show ?thesis by (simp add: emitted_ok_def stream_ended_def)
qed

lemma step_streams [consumes 2, case_names unchanged added resumed]:
  assumes "inv s" and "step conv now e s = Some s'"
  obtains
    (unchanged) "streams s' = streams s" "\<forall>i. e \<noteq> StreamResume i"
  | (added) p rid where "streams s' = streams s @ [new_stream p rid]"
      "lifecycle_of s' rid \<noteq> None" "\<forall>i. e \<noteq> StreamResume i"
  | (resumed) i s1 h' where "e = StreamResume i" "i < length (streams s)"
      "stream_step s (streams s ! i) = Some (s1, h')"
      "streams s' = (streams s)[i := h']" "s' = s1\<lparr>streams := (streams s)[i := h']\<rparr>"
  using assms(2)
proof (cases rule: step_cases)
  case same
  then show ?thesis by (intro unchanged) simp_all
next
  case (admit c d rid)
  then show ?thesis by (intro unchanged) (auto simp: admit_fields admission_of_def)
next
  case (admit_stream d rid)
  then show ?thesis by (intro added[of OpenAI rid]) (auto simp: lifecycle_admit admission_of_def)
next
  case (opened rid)
  then show ?thesis by (intro added[of Minimal rid]) (auto simp: lifecycle_of_def)
next
  case (resume i s1 h')
  from resume(2) have st: "streams s1 = streams s"
    by (cases rule: stream_step_cases) simp_all
  with resume show ?thesis by (intro resumed[of i s1 h']) simp_all
next
  case (lost queue_item rest)
  from inv_parts(2)[OF assms(1)] lost(2) have "lifecycle_of s (item_request_id queue_item) = Some Queued"
    by (simp add: queue_inv_def)
  with lost(3) show ?thesis by (simp add: lifecycle_of_def)
next
  case (get queue_item rest st)
  then show ?thesis by (intro unchanged) simp_all
next
  case (norelay rid acc)
  from inv_parts(1)[OF assms(1)] norelay show ?thesis by (simp add: worker_inv_def)
next
  case (nostatus rid acc)
  from busy_processing[OF inv_parts(1)[OF assms(1)] nostatus(1)] nostatus(2) show ?thesis
    by (simp add: lifecycle_of_def)
next
  case (chunk rid acc content a)
  then show ?thesis by (intro unchanged) auto
next
  case (finish rid acc a st)
  then show ?thesis by (intro unchanged) simp_all
next
  case (fail rid acc a st msg)
  then show ?thesis by (intro unchanged) simp_all
qed

lemma all_nth_update:
  assumes "\<forall>j < length xs. P (xs ! j)" and "P h"
  shows "\<forall>j < length (xs[i := h]). P (xs[i := h] ! j)"
proof (intro allI impI)
  fix j assume "j < length (xs[i := h])"
  with assms show "P (xs[i := h] ! j)" by (cases "i = j") simp_all
qed

lemma all_nth_append:
  assumes "\<forall>j < length xs. P (xs ! j)" and "P h"
  shows "\<forall>j < length (xs @ [h]). P ((xs @ [h]) ! j)"
proof (intro allI impI)
  fix j assume "j < length (xs @ [h])"
  then have "j < length xs \<or> j = length xs" by auto
  with assms show "P ((xs @ [h]) ! j)" by (auto simp: nth_append)
qed

lemma emitted_inv_step:
  assumes "inv s" and "step conv now e s = Some s'" and "emitted_inv s"
  shows "emitted_inv s'"
  using assms(1,2)
proof (cases rule: step_streams)
  case unchanged
  with assms(3) show ?thesis by (simp add: emitted_inv_def)
next
  case (added p rid)
  show ?thesis unfolding emitted_inv_def added(1)
  proof (intro allI impI)
    fix i assume "i < length (streams s @ [new_stream p rid])"
    then have "i < length (streams s) \<or> i = length (streams s)" by auto
    with assms(3) emitted_ok_new_stream[of p rid]
    show "emitted_ok ((streams s @ [new_stream p rid]) ! i)"
      by (auto simp: emitted_inv_def nth_append)
  qed
next
  case (resumed i s1 h')
  from assms(3) resumed(2) have "emitted_ok (streams s ! i)" by (simp add: emitted_inv_def)
  with resumed(3) have "emitted_ok h'" by (rule emitted_ok_step)
  with assms(3) show ?thesis unfolding emitted_inv_def resumed(4)
    by (rule all_nth_update)
qed

lemma emitted_inv_run:
  assumes "run conv es s = Some s'" and "inv s" and "emitted_inv s"
  shows "emitted_inv s'"
  using assms
proof (induction es arbitrary: s)
  case Nil
  then show ?case by simp
next
  case (Cons a es)
  obtain now e where a: "a = (now, e)" by (cases a)
  with Cons.prems(1) obtain s1 where s1: "step conv now e s = Some s1" "run conv es s1 = Some s'"
    by (auto split: option.splits)
  from s1(2) inv_step[OF Cons.prems(2) s1(1)] emitted_inv_step[OF Cons.prems(2) s1(1) Cons.prems(3)]
  show ?case by (rule Cons.IH)
qed

lemma emitted_inv_reachable: "run conv es init = Some s \<Longrightarrow> emitted_inv s"
  by (rule emitted_inv_run[OF _ inv_init]) (simp_all add: emitted_inv_def init_def)

lemma validate_chat_body: "validate strict OpenAIChatRequest chat_body = Inr chat_data"
  by (simp add: OpenAIChatRequest_def chat_body_def chat_data_def strict_def)

lemma post_chat_completions_chat:
  "snd (post_chat_completions strict chat_body rid now s) =
     (snd (admit ''openai_compat'' chat_data rid now s))\<lparr>streams := streams s @ [new_stream OpenAI rid]\<rparr>"
  apply (simp add: snd_post_chat_completions validate_chat_body)
  apply (simp add: truthy_field_def chat_data_def)
  done

lemmas eval_defs = post_queue_add_hello post_chat_completions_chat init_def admit_def Let_def qsize_def
  worker_get_def stream_response_def stream_resume_def stream_step_def poll_queued_def
  check_error_def poll_interval_def relay_interval_def emit_def
  wait_for_relay_def relay_get_def relay_events_def new_stream_def llm_chunk_def llm_end_def
  llm_fail_def processing_error_def put_relay_def relay_put_def chunk_content_def

lemma run_append:
  "run conv (es @ es') s = (case run conv es s of None \<Rightarrow> None | Some s1 \<Rightarrow> run conv es' s1)"
  by (induction es arbitrary: s) (auto split: option.splits)

text \<open>
  The claim as stated for both variants fails for the minimal one: two polls of a
  \<open>/stream/{id}\<close> generator that see the same queue depth give two equal position
  events.
\<close>

theorem minimal_stream_repeats_position:
  "\<exists>s. run strict run_minimal_polls init = Some s \<and>
       lifecycle_of s ''r2'' = Some Queued \<and>
       protocol (streams s ! 0) = Minimal \<and>
       emitted (streams s ! 0) = [Position 1, Position 1]"
  by (simp add: run_minimal_polls_def run_one_processing_def eval_defs lifecycle_of_def)

lemma run_openai_polls_state:
  "\<exists>s. run strict run_openai_polls init = Some s \<and> length (streams s) = 1 \<and>
       protocol (streams s ! 0) = OpenAI \<and> pc (streams s ! 0) = H_Queued (Some 1) \<and>
       h_request_id (streams s ! 0) = ''r2'' \<and>
       lifecycle_of s ''r2'' = Some Queued \<and> qsize s = 1 \<and>
       emitted (streams s ! 0) = [QueueEntered (Some 2), QueuePosition 1]"
  by (simp add: run_openai_polls_def eval_defs lifecycle_of_def)

text \<open>
  C7, as amended. While the status record of its request is \<open>queued\<close>, a wake-up of
  a stream generator is a poll of the current queue depth, and the generator then
  sleeps for the fixed interval of its variant before the next one: 0.5 seconds in
  \<open>/stream/{id}\<close>, 0.3 seconds in \<open>/v1/chat/completions\<close>. The OpenAI-compatible
  generator emits a \<open>queue_position\<close> comment only when the depth differs from the last
  position it emitted, so its position comments never repeat a value twice in a row;
  the minimal generator of \<open>/stream/{id}\<close> emits a \<open>position\<close> event at every poll.
\<close>

theorem position_updates_while_queued:
  assumes "run conv es init = Some s" and "i < length (streams s)"
    and "pc (streams s ! i) = H_Queued lp"
    and "lifecycle_of s (h_request_id (streams s ! i)) = Some Queued"
  shows "\<exists>s'. step conv now (StreamResume i) s = Some s' \<and>
           emitted (streams s' ! i) = emitted (streams s ! i) @
             (case protocol (streams s ! i) of
                Minimal \<Rightarrow> [Position (qsize s)]
              | OpenAI \<Rightarrow>
                  if last_position (emitted (streams s ! i)) = Some (qsize s) then []
                  else [QueuePosition (qsize s)]) \<and>
           (protocol (streams s ! i) = Minimal \<or>
            distinct_adj (queue_positions (emitted (streams s' ! i)))) \<and>
           (\<exists>lp'. pc (streams s' ! i) = H_Queued lp') \<and>
           sleeping (streams s' ! i) =
             Some (case protocol (streams s ! i) of Minimal \<Rightarrow> 5 / 10 | OpenAI \<Rightarrow> 3 / 10)"
proof -
  let ?h = "streams s ! i"
  from assms(4) obtain st where st: "status_tracker s (h_request_id ?h) = Some st"
    "status st = Queued" by (auto simp: lifecycle_of_def)
  from emitted_inv_reachable[OF assms(1)] assms(2) have ok: "emitted_ok ?h"
    by (simp add: emitted_inv_def)
  define h' where "h' = poll_queued s st lp ?h"
  have step: "step conv now (StreamResume i) s = Some (s\<lparr>streams := (streams s)[i := h']\<rparr>)"
    using assms(2,3) st by (simp add: stream_resume_def stream_step_def h'_def)
  have ss: "stream_step s ?h = Some (s, h')"
    using assms(3) st by (simp add: stream_step_def h'_def)
  from ss ok have ok': "emitted_ok h'" by (rule emitted_ok_step)
  have e: "emitted h' = emitted ?h @
             (case protocol ?h of
                Minimal \<Rightarrow> [Position (qsize s)]
              | OpenAI \<Rightarrow>
                  if last_position (emitted ?h) = Some (qsize s) then []
                  else [QueuePosition (qsize s)])"
  proof (cases "protocol ?h")
    case Minimal
    with st show ?thesis by (simp add: h'_def poll_queued_def emit_def)
  next
    case OpenAI
    with ok assms(3) have "lp = last_position (emitted ?h)" by (simp add: emitted_ok_def)
    with OpenAI st show ?thesis by (auto simp: h'_def poll_queued_def emit_def Let_def)
  qed
  have d: "protocol ?h = Minimal \<or> distinct_adj (queue_positions (emitted h'))"
  proof (cases "protocol ?h")
    case Minimal
    then show ?thesis by simp
  next
    case OpenAI
    with st have "protocol h' = OpenAI" "\<exists>lp'. pc h' = H_Queued lp'"
      using assms(3) by (auto simp: h'_def poll_queued_def emit_def Let_def)
    with ok' show ?thesis by (auto simp: emitted_ok_def)
  qed
  have q: "\<exists>lp'. pc h' = H_Queued lp'"
    using st assms(3)
    by (cases "protocol ?h") (auto simp: h'_def poll_queued_def emit_def Let_def)
  have sl: "sleeping h' = Some (case protocol ?h of Minimal \<Rightarrow> 5 / 10 | OpenAI \<Rightarrow> 3 / 10)"
    using st
    by (cases "protocol ?h") (auto simp: h'_def poll_queued_def emit_def Let_def poll_interval_def)
  from step e d q sl assms(2) show ?thesis by simp
qed

theorem position_updates_while_queued_witness:
  "\<exists>s s'. run strict run_openai_polls init = Some s \<and> length (streams s) = 1 \<and>
       pc (streams s ! 0) = H_Queued (Some 1) \<and> protocol (streams s ! 0) = OpenAI \<and>
       lifecycle_of s (h_request_id (streams s ! 0)) = Some Queued \<and> qsize s = 1 \<and>
       emitted (streams s ! 0) = [QueueEntered (Some 2), QueuePosition 1] \<and>
       step strict ''t6'' (StreamResume 0) s = Some s' \<and>
       emitted (streams s' ! 0) = [QueueEntered (Some 2), QueuePosition 1] \<and>
       sleeping (streams s' ! 0) = Some (3 / 10)"
proof -
  from run_openai_polls_state obtain s where s: "run strict run_openai_polls init = Some s"
    "length (streams s) = 1" "protocol (streams s ! 0) = OpenAI"
    "pc (streams s ! 0) = H_Queued (Some 1)" "h_request_id (streams s ! 0) = ''r2''"
    "lifecycle_of s ''r2'' = Some Queued" "qsize s = 1"
    "emitted (streams s ! 0) = [QueueEntered (Some 2), QueuePosition 1]"
    by auto
  have l: "last_position (emitted (streams s ! 0)) = Some 1"
    by (simp add: s(8) last_position_def)
  from s have a: "0 < length (streams s)" "lifecycle_of s (h_request_id (streams s ! 0)) = Some Queued"
    by simp_all
  from position_updates_while_queued[OF s(1) a(1) s(4) a(2), of "''t6''"] s l
  show ?thesis by auto
qed

text \<open>
  C9. The non-streaming call polls while the status record is \<open>queued\<close> or
  \<open>processing\<close>. At the first pass that finds the record complete or failed it returns
  the one completion object, or the error object; at the first pass that finds it
  still pending more than 300 seconds after the start (by the difference of the clock
  readings as the program computes it) it returns the timeout object.
  So the call returns as soon as one of its passes sees a terminal state or an
  expired timeout.
\<close>

theorem nonstreaming_call_returns:
  assumes "k < length obs"
    and "\<forall>j<k. pending (fst (obs ! j)) \<and> fsub (snd (obs ! j)) start_time \<le> 300"
    and "\<not> pending (fst (obs ! k)) \<or> fsub (snd (obs ! k)) start_time > 300"
  shows "chat_completions_poll fsub rid model start_time obs = Some (poll_answer rid model (fst (obs ! k)))"
  using assms
proof (induction obs arbitrary: k)
  case Nil
  then show ?case by simp
next
  case (Cons o1 obs)
  obtain st t where o1: "o1 = (st, t)" by (cases o1)
  show ?case
  proof (cases k)
    case 0
    with Cons.prems(3) o1 show ?thesis
      by (cases "status st") (auto simp: pending_def poll_answer_def)
  next
    case (Suc k')
    with Cons.prems(2) o1 have p: "pending st" "fsub t start_time \<le> 300" by force+
    from Suc Cons.prems(1) have 1: "k' < length obs" by simp
    from Suc Cons.prems(2) have 2: "\<forall>j<k'. pending (fst (obs ! j)) \<and> fsub (snd (obs ! j)) start_time \<le> 300"
      by auto
    from Suc Cons.prems(3) have 3: "\<not> pending (fst (obs ! k')) \<or> fsub (snd (obs ! k')) start_time > 300"
      by simp
    from Cons.IH[OF 1 2 3] p o1 Suc show ?thesis by (simp add: pending_def)
  qed
qed

theorem nonstreaming_call_returns_witness:
  "chat_completions_poll (-) ''r3'' ''m'' 10 stuck_queued = Some TimeoutError \<and>
   chat_completions_poll (-) ''r1'' ''m'' 10 soon_complete =
     Some (ChatCompletion ''r1'' ''t0'' ''m'' (Some ''Hello world''))"
proof -
  have "chat_completions_poll (-) ''r3'' ''m'' 10 stuck_queued =
      Some (poll_answer ''r3'' ''m'' (fst (stuck_queued ! 2)))"
    by (rule nonstreaming_call_returns)
       (simp_all add: stuck_queued_def pending_def queued_record_def less_Suc_eq numeral_2_eq_2)
  moreover have "chat_completions_poll (-) ''r1'' ''m'' 10 soon_complete =
      Some (poll_answer ''r1'' ''m'' (fst (soon_complete ! 1)))"
    by (rule nonstreaming_call_returns)
       (simp_all add: soon_complete_def pending_def queued_record_def complete_record_def)
  ultimately show ?thesis
    by (simp add: poll_answer_def stuck_queued_def soon_complete_def queued_record_def
        complete_record_def)
qed

lemma entry_invI:
  assumes "\<And>r. dequeued s r \<Longrightarrow> \<forall>i \<in> streams_of s r. pc (streams s ! i) \<noteq> H_Closed
            \<Longrightarrow> stream_chunks s r \<noteq> None"
  shows "entry_inv s"
  using assms by (simp add: entry_inv_def)

lemma entry_invD:
  assumes "entry_inv s" "dequeued s r" "\<forall>i \<in> streams_of s r. pc (streams s ! i) \<noteq> H_Closed"
  shows "stream_chunks s r \<noteq> None"
  using assms by (simp add: entry_inv_def)

lemma stream_step_request [simp]:
  assumes "stream_step s h = Some (s1, h')"
  shows "h_request_id h' = h_request_id h" and "protocol h' = protocol h"
  using assms by (cases rule: stream_step_cases; simp)+

lemma stream_step_not_closed:
  assumes "stream_step s h = Some (s1, h')"
  shows "pc h \<noteq> H_Closed"
  using assms by (cases "pc h") (simp_all add: stream_step_def)

lemma streams_of_update:
  assumes "i < length (streams s)" "h_request_id h' = h_request_id (streams s ! i)"
  shows "streams_of (s1\<lparr>streams := (streams s)[i := h']\<rparr>) r = streams_of s r"
  using assms by (auto simp: streams_of_def nth_list_update)

lemma streams_of_append:
  "streams_of (s1\<lparr>streams := streams s @ [h]\<rparr>) r =
     streams_of s r \<union> (if h_request_id h = r then {length (streams s)} else {})"
  by (auto simp: streams_of_def nth_append less_Suc_eq)

lemma dequeued_admit:
  assumes "lifecycle_of s rid = None"
  shows "dequeued (snd (admit c d rid now s)) r = (r \<noteq> rid \<and> dequeued s r)"
  using assms by (auto simp: dequeued_def finished_def lifecycle_admit)

lemma not_closed_append:
  assumes "streams s' = streams s @ [h]"
    and "\<forall>i \<in> streams_of s' r. pc (streams s' ! i) \<noteq> H_Closed"
  shows "\<forall>i \<in> streams_of s r. pc (streams s ! i) \<noteq> H_Closed"
proof
  fix i assume "i \<in> streams_of s r"
  then have i: "i < length (streams s)" "h_request_id (streams s ! i) = r"
    by (simp_all add: streams_of_def)
  with assms(1) have "i \<in> streams_of s' r" "streams s' ! i = streams s ! i"
    by (simp_all add: streams_of_def nth_append)
  with assms(2) show "pc (streams s ! i) \<noteq> H_Closed" by auto
qed

lemma entry_inv_step:
  assumes "inv s" and "step conv now e s = Some s'" and "entry_inv s"
  shows "entry_inv s'"
  using assms(2)
proof (cases rule: step_cases)
  case same
  with assms(3) show ?thesis by simp
next
  case (admit c d rid)
  show ?thesis
  proof (rule entry_invI)
    fix r assume d: "dequeued s' r" and n: "\<forall>i \<in> streams_of s' r. pc (streams s' ! i) \<noteq> H_Closed"
    from d have "dequeued s r" unfolding admit(2)
      by (simp add: dequeued_admit[OF fresh_lifecycle[OF admit(1)]])
    moreover from n have "\<forall>i \<in> streams_of s r. pc (streams s ! i) \<noteq> H_Closed"
      unfolding admit(2) by (simp add: streams_of_def admit_fields)
    ultimately have "stream_chunks s r \<noteq> None" by (rule entry_invD[OF assms(3)])
    then show "stream_chunks s' r \<noteq> None" unfolding admit(2) by (simp add: admit_fields)
  qed
next
  case (admit_stream d rid)
  show ?thesis
  proof (rule entry_invI)
    fix r assume d: "dequeued s' r" and n: "\<forall>i \<in> streams_of s' r. pc (streams s' ! i) \<noteq> H_Closed"
    from d have "dequeued s r" unfolding admit_stream(2)
      using dequeued_admit[OF fresh_lifecycle[OF admit_stream(1)], of "''openai_compat''" d now r]
      by (simp add: dequeued_def finished_def)
    moreover have "\<forall>i \<in> streams_of s r. pc (streams s ! i) \<noteq> H_Closed"
      by (rule not_closed_append[OF _ n]) (simp add: admit_stream(2))
    ultimately have "stream_chunks s r \<noteq> None" by (rule entry_invD[OF assms(3)])
    then show "stream_chunks s' r \<noteq> None" unfolding admit_stream(2) by (simp add: admit_fields)
  qed
next
  case (opened rid)
  show ?thesis
  proof (rule entry_invI)
    fix r assume d: "dequeued s' r" and n: "\<forall>i \<in> streams_of s' r. pc (streams s' ! i) \<noteq> H_Closed"
    from d have "dequeued s r" unfolding opened(2) by (simp add: dequeued_def finished_def)
    moreover have "\<forall>i \<in> streams_of s r. pc (streams s ! i) \<noteq> H_Closed"
      by (rule not_closed_append[OF _ n]) (simp add: opened(2))
    ultimately have "stream_chunks s r \<noteq> None" by (rule entry_invD[OF assms(3)])
    then show "stream_chunks s' r \<noteq> None" unfolding opened(2) by simp
  qed
next
  case (resume i s1 h')
  let ?h = "streams s ! i"
  from resume(2) have st: "streams s1 = streams s" by (cases rule: stream_step_cases) simp_all
  have lc: "lifecycle_of s' = lifecycle_of s"
    using resume(2) unfolding resume(3)
    by (cases rule: stream_step_cases) (simp_all add: lifecycle_of_def fun_eq_iff)
  have so: "\<And>r. streams_of s' r = streams_of s r"
    unfolding resume(3) st using resume(1) stream_step_request(1)[OF resume(2)]
    by (rule streams_of_update)
  have s'i: "streams s' ! i = h'" unfolding resume(3) st using resume(1) by simp
  have s'j: "\<And>j. j \<noteq> i \<Longrightarrow> streams s' ! j = streams s ! j" unfolding resume(3) st by simp
  show ?thesis
  proof (rule entry_invI)
    fix r assume d: "dequeued s' r" and n: "\<forall>j \<in> streams_of s' r. pc (streams s' ! j) \<noteq> H_Closed"
    from d lc have d0: "dequeued s r" by (simp add: dequeued_def finished_def)
    have n0: "\<forall>j \<in> streams_of s r. pc (streams s ! j) \<noteq> H_Closed"
    proof
      fix j assume j: "j \<in> streams_of s r"
      show "pc (streams s ! j) \<noteq> H_Closed"
      proof (cases "j = i")
        case True
        with stream_step_not_closed[OF resume(2)] show ?thesis by simp
      next
        case False
        from j so have "j \<in> streams_of s' r" by simp
        with n have "pc (streams s' ! j) \<noteq> H_Closed" by blast
        with s'j[OF False] show ?thesis by simp
      qed
    qed
    from entry_invD[OF assms(3) d0 n0] have e0: "stream_chunks s r \<noteq> None" .
    show "stream_chunks s' r \<noteq> None"
    proof (cases "h_request_id ?h = r \<and> pc h' = H_Closed")
      case True
      with resume(1) have "i \<in> streams_of s r" by (simp add: streams_of_def)
      with n so s'i True show ?thesis by auto
    next
      case False
      from resume(2) have "stream_chunks s1 r = stream_chunks s r"
        using False by (cases rule: stream_step_cases) auto
      with e0 show ?thesis unfolding resume(3) by simp
    qed
  qed
next
  case (lost queue_item rest)
  from inv_parts(2)[OF assms(1)] lost(2) have "lifecycle_of s (item_request_id queue_item) = Some Queued"
    by (simp add: queue_inv_def)
  with lost(3) show ?thesis by (simp add: lifecycle_of_def)
next
  case (get queue_item rest st)
  show ?thesis
  proof (rule entry_invI)
    fix r assume d: "dequeued s' r" and n: "\<forall>i \<in> streams_of s' r. pc (streams s' ! i) \<noteq> H_Closed"
    show "stream_chunks s' r \<noteq> None"
    proof (cases "r = item_request_id queue_item")
      case True
      then show ?thesis unfolding get(4) by simp
    next
      case False
      with d have "dequeued s r" unfolding get(4) by (simp add: dequeued_def finished_def lifecycle_of_def)
      moreover from n have "\<forall>i \<in> streams_of s r. pc (streams s ! i) \<noteq> H_Closed"
        unfolding get(4) by (simp add: streams_of_def)
      ultimately have "stream_chunks s r \<noteq> None" by (rule entry_invD[OF assms(3)])
      with False show ?thesis unfolding get(4) by simp
    qed
  qed
next
  case (norelay rid acc)
  from inv_parts(1)[OF assms(1)] norelay show ?thesis by (simp add: worker_inv_def)
next
  case (nostatus rid acc)
  from busy_processing[OF inv_parts(1)[OF assms(1)] nostatus(1)] nostatus(2) show ?thesis
    by (simp add: lifecycle_of_def)
next
  case (chunk rid acc content a)
  show ?thesis
  proof (rule entry_invI)
    fix r assume d: "dequeued s' r" and n: "\<forall>i \<in> streams_of s' r. pc (streams s' ! i) \<noteq> H_Closed"
    from d have "dequeued s r" unfolding chunk(5) by (simp add: dequeued_def finished_def lifecycle_of_def)
    moreover from n have "\<forall>i \<in> streams_of s r. pc (streams s ! i) \<noteq> H_Closed"
      unfolding chunk(5) by (simp add: streams_of_def)
    ultimately have "stream_chunks s r \<noteq> None" by (rule entry_invD[OF assms(3)])
    then show "stream_chunks s' r \<noteq> None" unfolding chunk(5) by simp
  qed
next
  case (finish rid acc a st)
  show ?thesis
  proof (rule entry_invI)
    fix r assume d: "dequeued s' r" and n: "\<forall>i \<in> streams_of s' r. pc (streams s' ! i) \<noteq> H_Closed"
    show "stream_chunks s' r \<noteq> None"
    proof (cases "r = rid")
      case True
      with finish(2) show ?thesis unfolding finish(5) by simp
    next
      case False
      with d have "dequeued s r" unfolding finish(5) by (simp add: dequeued_def finished_def lifecycle_of_def)
      moreover from n have "\<forall>i \<in> streams_of s r. pc (streams s ! i) \<noteq> H_Closed"
        unfolding finish(5) by (simp add: streams_of_def)
      ultimately have "stream_chunks s r \<noteq> None" by (rule entry_invD[OF assms(3)])
      then show ?thesis unfolding finish(5) by simp
    qed
  qed
next
  case (fail rid acc a st msg)
  show ?thesis
  proof (rule entry_invI)
    fix r assume d: "dequeued s' r" and n: "\<forall>i \<in> streams_of s' r. pc (streams s' ! i) \<noteq> H_Closed"
    show "stream_chunks s' r \<noteq> None"
    proof (cases "r = rid")
      case True
      with fail(2) show ?thesis unfolding fail(5) by simp
    next
      case False
      with d have "dequeued s r" unfolding fail(5) by (simp add: dequeued_def finished_def lifecycle_of_def)
      moreover from n have "\<forall>i \<in> streams_of s r. pc (streams s ! i) \<noteq> H_Closed"
        unfolding fail(5) by (simp add: streams_of_def)
      ultimately have "stream_chunks s r \<noteq> None" by (rule entry_invD[OF assms(3)])
      then show ?thesis unfolding fail(5) by simp
    qed
  qed
qed

lemma run_invariant:
  assumes "run conv es s = Some s'" and "P s"
    and "\<And>now e s s'. P s \<Longrightarrow> step conv now e s = Some s' \<Longrightarrow> P s'"
  shows "P s'"
  using assms(1,2)
proof (induction es arbitrary: s)
  case Nil
  then show ?case by simp
next
  case (Cons a es)
  obtain now e where a: "a = (now, e)" by (cases a)
  with Cons.prems(1) obtain s1 where s1: "step conv now e s = Some s1" "run conv es s1 = Some s'"
    by (auto split: option.splits)
  from s1(2) assms(3)[OF Cons.prems(2) s1(1)] show ?case by (rule Cons.IH)
qed

lemma entry_inv_reachable:
  assumes "run conv es init = Some s"
  shows "entry_inv s"
proof -
  have "inv s \<and> entry_inv s"
    using assms
  proof (rule run_invariant)
    show "inv init \<and> entry_inv init"
      by (simp add: inv_init) (simp add: entry_inv_def dequeued_def finished_def lifecycle_of_def init_def)
  next
    fix now e s s' assume "inv s \<and> entry_inv s" "step conv now e s = Some s'"
    then show "inv s' \<and> entry_inv s'" using inv_step entry_inv_step by blast
  qed
  then show ?thesis by simp
qed

lemma entry_removed_by_cleanup:
  assumes "inv s" and "step conv now e s = Some s'"
    and "stream_chunks s r \<noteq> None" and "stream_chunks s' r = None"
  shows "\<exists>i. e = StreamResume i \<and> i \<in> streams_of s r \<and> pc (streams s ! i) = H_Cleanup"
  using assms(2)
proof (cases rule: step_cases)
  case same
  with assms(3,4) show ?thesis by simp
next
  case (admit c d rid)
  with assms(3,4) show ?thesis by (simp add: admit_fields)
next
  case (admit_stream d rid)
  with assms(3,4) show ?thesis by (simp add: admit_fields)
next
  case (opened rid)
  with assms(3,4) show ?thesis by simp
next
  case (resume i s1 h')
  from resume(2) show ?thesis
  proof (cases rule: stream_step_cases)
    case cleanup
    from assms(3,4) have "h_request_id (streams s ! i) = r"
      unfolding resume(3) cleanup(2) by (simp split: if_splits)
    with resume(1,4) cleanup(1) show ?thesis by (simp add: streams_of_def)
  qed (use assms(3,4) resume(3) in simp_all)
next
  case (lost queue_item rest)
  from inv_parts(2)[OF assms(1)] lost(2) have "lifecycle_of s (item_request_id queue_item) = Some Queued"
    by (simp add: queue_inv_def)
  with lost(3) show ?thesis by (simp add: lifecycle_of_def)
next
  case (get queue_item rest st)
  with assms(3,4) show ?thesis by (simp split: if_splits)
next
  case (norelay rid acc)
  from inv_parts(1)[OF assms(1)] norelay show ?thesis by (simp add: worker_inv_def)
next
  case (nostatus rid acc)
  from busy_processing[OF inv_parts(1)[OF assms(1)] nostatus(1)] nostatus(2) show ?thesis
    by (simp add: lifecycle_of_def)
next
  case (chunk rid acc content a)
  with assms(3,4) show ?thesis by simp
next
  case (finish rid acc a st)
  with assms(3,4) show ?thesis by simp
next
  case (fail rid acc a st msg)
  with assms(3,4) show ?thesis by simp
qed

text \<open>
  C10. An entry of \<open>stream_chunks\<close> is removed only by a stream generator, in the step
  after it has emitted its terminal event; no step of the worker or of an admission
  removes one. Hence the entry of a request that has been dequeued and for which no
  stream was ever opened is in the map in every later state.
\<close>

theorem relay_entry_lifetime:
  assumes "run conv es init = Some s"
  shows "(step conv now e s = Some s' \<and> r \<in> dom (stream_chunks s) \<and> r \<notin> dom (stream_chunks s') \<longrightarrow>
            (\<exists>i. e = StreamResume i \<and> i \<in> streams_of s r \<and> pc (streams s ! i) = H_Cleanup \<and>
                 terminal_count (emitted (streams s ! i)) = 1 \<and>
                 is_terminal_event (last (emitted (streams s ! i))))) \<and>
         (dequeued s q \<and> streams_of s q = {} \<longrightarrow> q \<in> dom (stream_chunks s))"
proof (intro conjI impI)
  assume a: "step conv now e s = Some s' \<and> r \<in> dom (stream_chunks s) \<and> r \<notin> dom (stream_chunks s')"
  then have "stream_chunks s r \<noteq> None" "stream_chunks s' r = None" by (auto simp: domIff)
  with entry_removed_by_cleanup[OF inv_reachable[OF assms]] a
  obtain i where i: "e = StreamResume i" "i \<in> streams_of s r" "pc (streams s ! i) = H_Cleanup"
    by blast
  from emitted_inv_reachable[OF assms] i(2) have "emitted_ok (streams s ! i)"
    by (simp add: emitted_inv_def streams_of_def)
  with i(3) have "terminal_count (emitted (streams s ! i)) = 1"
    "is_terminal_event (last (emitted (streams s ! i)))"
    by (simp_all add: emitted_ok_def stream_ended_def)
  with i show "\<exists>i. e = StreamResume i \<and> i \<in> streams_of s r \<and> pc (streams s ! i) = H_Cleanup \<and>
                 terminal_count (emitted (streams s ! i)) = 1 \<and>
                 is_terminal_event (last (emitted (streams s ! i)))" by blast
next
  assume "dequeued s q \<and> streams_of s q = {}"
  then have "stream_chunks s q \<noteq> None"
    by (intro entry_invD[OF entry_inv_reachable[OF assms]]) simp_all
  then show "q \<in> dom (stream_chunks s)" by (simp add: domIff)
qed

lemma run_two_done_state:
  "\<exists>s s'. run strict run_two_done init = Some s \<and> step strict ''t13'' (StreamResume 0) s = Some s' \<and>
     length (streams s) = 1 \<and> h_request_id (streams s ! 0) = ''r1'' \<and>
     emitted (streams s ! 0) = [Chunk ''Hello'', Done] \<and>
     stream_chunks s ''r1'' = Some 0 \<and> stream_chunks s' ''r1'' = None \<and>
     stream_chunks s ''r2'' = Some 1 \<and> lifecycle_of s ''r2'' = Some Complete"
  by (simp add: run_two_done_def eval_defs lifecycle_of_def)

theorem relay_entry_lifetime_witness:
  "\<exists>s s'. run strict run_two_done init = Some s \<and> step strict ''t13'' (StreamResume 0) s = Some s' \<and>
     ''r1'' \<in> dom (stream_chunks s) \<and> ''r1'' \<notin> dom (stream_chunks s') \<and>
     0 \<in> streams_of s ''r1'' \<and> pc (streams s ! 0) = H_Cleanup \<and>
     emitted (streams s ! 0) = [Chunk ''Hello'', Done] \<and>
     dequeued s ''r2'' \<and> streams_of s ''r2'' = {} \<and> ''r2'' \<in> dom (stream_chunks s)"
proof -
  from run_two_done_state obtain s s' where s: "run strict run_two_done init = Some s"
    "step strict ''t13'' (StreamResume 0) s = Some s'"
    "length (streams s) = 1" "h_request_id (streams s ! 0) = ''r1''"
    "emitted (streams s ! 0) = [Chunk ''Hello'', Done]"
    "stream_chunks s ''r1'' = Some 0" "stream_chunks s' ''r1'' = None"
    "stream_chunks s ''r2'' = Some 1" "lifecycle_of s ''r2'' = Some Complete"
    by auto
  have d: "''r1'' \<in> dom (stream_chunks s)" "''r1'' \<notin> dom (stream_chunks s')"
    using s(6,7) by (simp_all add: domIff)
  have q: "dequeued s ''r2''" "streams_of s ''r2'' = {}"
    using s(3,4,9) by (auto simp: dequeued_def finished_def streams_of_def)
  from relay_entry_lifetime[OF s(1), of "''t13''" "StreamResume 0" s' "''r1''" "''r2''"] s(2) d q
  have "pc (streams s ! 0) = H_Cleanup" "0 \<in> streams_of s ''r1''" "''r2'' \<in> dom (stream_chunks s)"
    by auto
  with s d q show ?thesis by blast
qed

lemma admissions_append: "admissions conv (es @ es') = admissions conv es @ admissions conv es'"
  by (induction conv es rule: admissions.induct) (simp_all split: option.splits)




lemma stream_step_frame:
  assumes "stream_step s h = Some (s1, h')"
  shows "worker s1 = worker s" "request_queue s1 = request_queue s"
    "status_tracker s1 = status_tracker s" "queue_stats s1 = queue_stats s"
    "streams s1 = streams s" "map items (relays s1) = map items (relays s)"
    "length (relays s1) = length (relays s)"
  using assms by (cases rule: stream_step_cases; simp)+









lemma stream_step_drain:
  assumes "stream_step s h = Some (s1, h')" and "pc h' = H_Drain a"
  shows "pc h = H_Drain a \<or> stream_chunks s (h_request_id h) = Some a"
  using assms by (cases rule: stream_step_cases; simp)

lemma stream_step_entries:
  assumes "stream_step s h = Some (s1, h')" and "stream_chunks s1 r = Some a"
  shows "stream_chunks s r = Some a"
  using assms by (cases rule: stream_step_cases; simp split: if_splits)

lemma holds_relay_resume:
  assumes "i < length (streams s)" and "stream_step s (streams s ! i) = Some (s1, h')"
    and "holds_relay (s1\<lparr>streams := (streams s)[i := h']\<rparr>) r a"
  shows "holds_relay s r a"
proof -
  let ?s' = "s1\<lparr>streams := (streams s)[i := h']\<rparr>"
  from assms(3) consider (entry) "stream_chunks s1 r = Some a"
    | (drain) j where "j \<in> streams_of ?s' r" "pc (streams ?s' ! j) = H_Drain a"
    by (auto simp: holds_relay_def)
  then show ?thesis
  proof cases
    case entry
    with stream_step_entries[OF assms(2)] show ?thesis by (simp add: holds_relay_def)
  next
    case (drain j)
    from drain(1) have j: "j < length (streams s)" "h_request_id (streams ?s' ! j) = r"
      by (simp_all add: streams_of_def)
    show ?thesis
    proof (cases "j = i")
      case False
      with j drain(2) have "j \<in> streams_of s r" "pc (streams s ! j) = H_Drain a"
        by (simp_all add: streams_of_def)
      then show ?thesis unfolding holds_relay_def by blast
    next
      case True
      with j drain(2) assms(1) have h': "h_request_id h' = r" "pc h' = H_Drain a" by simp_all
      from h'(1) stream_step_request(1)[OF assms(2)] have r: "h_request_id (streams s ! i) = r"
        by simp
      from stream_step_drain[OF assms(2) h'(2)] show ?thesis
      proof
        assume "pc (streams s ! i) = H_Drain a"
        with assms(1) r have "i \<in> streams_of s r" "pc (streams s ! i) = H_Drain a"
          by (simp_all add: streams_of_def)
        then show ?thesis unfolding holds_relay_def by blast
      next
        assume "stream_chunks s (h_request_id (streams s ! i)) = Some a"
        with r show ?thesis by (simp add: holds_relay_def)
      qed
    qed
  qed
qed

lemma holds_relay_frame:
  assumes "stream_chunks s' = stream_chunks s"
    and "streams s' = streams s \<or> (\<exists>p rid. streams s' = streams s @ [new_stream p rid])"
    and "holds_relay s' r a"
  shows "holds_relay s r a"
proof -
  from assms(3) consider (entry) "stream_chunks s' r = Some a"
    | (drain) j where "j \<in> streams_of s' r" "pc (streams s' ! j) = H_Drain a"
    by (auto simp: holds_relay_def)
  then show ?thesis
  proof cases
    case entry
    with assms(1) show ?thesis by (simp add: holds_relay_def)
  next
    case (drain j)
    from assms(2) show ?thesis
    proof
      assume "streams s' = streams s"
      with drain have "j \<in> streams_of s r" "pc (streams s ! j) = H_Drain a"
        by (simp_all add: streams_of_def)
      then show ?thesis unfolding holds_relay_def by blast
    next
      assume "\<exists>p rid. streams s' = streams s @ [new_stream p rid]"
      then obtain p rid where n: "streams s' = streams s @ [new_stream p rid]" by blast
      have "pc (new_stream p rid) \<noteq> H_Drain a" by (cases p) (simp_all add: new_stream_def)
      with drain n have "j < length (streams s)"
        by (cases "j = length (streams s)") (auto simp: streams_of_def nth_append)
      with drain n have "j \<in> streams_of s r" "pc (streams s ! j) = H_Drain a"
        by (simp_all add: streams_of_def nth_append)
      then show ?thesis unfolding holds_relay_def by blast
    qed
  qed
qed

lemma dequeued_step:
  assumes "inv s" and "step conv now e s = Some s'" and "dequeued s r"
  shows "dequeued s' r"
  using assms(2)
proof (cases rule: step_cases)
  case same
  with assms(3) show ?thesis by simp
next
  case (admit c d rid)
  from assms(3) fresh_lifecycle[OF admit(1)] have "r \<noteq> rid"
    by (auto simp: dequeued_def finished_def)
  with assms(3) show ?thesis unfolding admit(2)
    by (simp add: dequeued_admit[OF fresh_lifecycle[OF admit(1)]])
next
  case (admit_stream d rid)
  from assms(3) fresh_lifecycle[OF admit_stream(1)] have "r \<noteq> rid"
    by (auto simp: dequeued_def finished_def)
  with assms(3) show ?thesis unfolding admit_stream(2)
    by (simp add: dequeued_def finished_def lifecycle_admit)
next
  case (opened rid)
  with assms(3) show ?thesis by (simp add: dequeued_def finished_def)
next
  case (resume i s1 h')
  from stream_step_frame(3)[OF resume(2)] assms(3) show ?thesis unfolding resume(3)
    by (simp add: dequeued_def finished_def lifecycle_of_def)
next
  case (lost queue_item rest)
  from inv_parts(2)[OF assms(1)] lost(2) have "lifecycle_of s (item_request_id queue_item) = Some Queued"
    by (simp add: queue_inv_def)
  with lost(3) show ?thesis by (simp add: lifecycle_of_def)
next
  case (get queue_item rest st)
  from inv_parts(2)[OF assms(1)] get(2) have "lifecycle_of s (item_request_id queue_item) = Some Queued"
    by (simp add: queue_inv_def)
  with assms(3) have "r \<noteq> item_request_id queue_item" by (auto simp: dequeued_def finished_def)
  with assms(3) show ?thesis unfolding get(4) by (simp add: dequeued_def finished_def lifecycle_of_def)
next
  case (norelay rid acc)
  from inv_parts(1)[OF assms(1)] norelay show ?thesis by (simp add: worker_inv_def)
next
  case (nostatus rid acc)
  from busy_processing[OF inv_parts(1)[OF assms(1)] nostatus(1)] nostatus(2) show ?thesis
    by (simp add: lifecycle_of_def)
next
  case (chunk rid acc content a)
  with assms(3) show ?thesis by (simp add: dequeued_def finished_def lifecycle_of_def)
next
  case (finish rid acc a st)
  with assms(3) show ?thesis by (auto simp: dequeued_def finished_def lifecycle_of_def)
next
  case (fail rid acc a st msg)
  with assms(3) show ?thesis by (auto simp: dequeued_def finished_def lifecycle_of_def)
qed

lemma relays_grow:
  assumes "inv s" and "step conv now e s = Some s'"
  shows "length (relays s) \<le> length (relays s')"
  using assms(2)
proof (cases rule: step_cases)
  case (resume i s1 h')
  from stream_step_frame(7)[OF resume(2)] show ?thesis unfolding resume(3) by simp
next
  case (lost queue_item rest)
  from inv_parts(2)[OF assms(1)] lost(2) have "lifecycle_of s (item_request_id queue_item) = Some Queued"
    by (simp add: queue_inv_def)
  with lost(3) show ?thesis by (simp add: lifecycle_of_def)
next
  case (norelay rid acc)
  from inv_parts(1)[OF assms(1)] norelay show ?thesis by (simp add: worker_inv_def)
next
  case (nostatus rid acc)
  from busy_processing[OF inv_parts(1)[OF assms(1)] nostatus(1)] nostatus(2) show ?thesis
    by (simp add: lifecycle_of_def)
qed (simp_all add: admit_fields)

text \<open>Except when the worker dequeues a request, a step creates no relay queue.\<close>

lemma holds_relay_step:
  assumes "inv s" and "step conv now e s = Some s'" and "holds_relay s' r a"
  shows "holds_relay s r a \<or>
         (e = WorkerGet \<and> request_queue s \<noteq> [] \<and> r = item_request_id (hd (request_queue s)) \<and>
          a = length (relays s) \<and> lifecycle_of s r = Some Queued)"
  using assms(2)
proof (cases rule: step_cases)
  case same
  with assms(3) show ?thesis by simp
next
  case (admit c d rid)
  have "holds_relay s r a"
    by (rule holds_relay_frame[OF _ _ assms(3)]) (simp_all add: admit(2) admit_fields)
  then show ?thesis by simp
next
  case (admit_stream d rid)
  have "holds_relay s r a"
    by (rule holds_relay_frame[OF _ _ assms(3)]) (auto simp: admit_stream(2) admit_fields)
  then show ?thesis by simp
next
  case (opened rid)
  have "holds_relay s r a"
    by (rule holds_relay_frame[OF _ _ assms(3)]) (auto simp: opened(2))
  then show ?thesis by simp
next
  case (resume i s1 h')
  from assms(3) have "holds_relay (s1\<lparr>streams := (streams s)[i := h']\<rparr>) r a"
    unfolding resume(3) stream_step_frame(5)[OF resume(2)] .
  with resume(1,2) have "holds_relay s r a" by (rule holds_relay_resume)
  then show ?thesis by simp
next
  case (lost queue_item rest)
  from inv_parts(2)[OF assms(1)] lost(2) have "lifecycle_of s (item_request_id queue_item) = Some Queued"
    by (simp add: queue_inv_def)
  with lost(3) show ?thesis by (simp add: lifecycle_of_def)
next
  case (get queue_item rest st)
  from inv_parts(2)[OF assms(1)] get(2) have q: "lifecycle_of s (item_request_id queue_item) = Some Queued"
    by (simp add: queue_inv_def)
  show ?thesis
  proof (cases "stream_chunks s' r = Some a \<and> r = item_request_id queue_item")
    case True
    then have "r = item_request_id queue_item" "a = length (relays s)"
      by (auto simp: get(4))
    with get(2,5) q show ?thesis by simp
  next
    case False
    have "holds_relay s r a"
      using assms(3) False unfolding get(4) holds_relay_def streams_of_def
      by (auto split: if_splits)
    then show ?thesis by simp
  qed
next
  case (norelay rid acc)
  from inv_parts(1)[OF assms(1)] norelay show ?thesis by (simp add: worker_inv_def)
next
  case (nostatus rid acc)
  from busy_processing[OF inv_parts(1)[OF assms(1)] nostatus(1)] nostatus(2) show ?thesis
    by (simp add: lifecycle_of_def)
next
  case (chunk rid acc content a')
  have "holds_relay s r a"
    by (rule holds_relay_frame[OF _ _ assms(3)]) (simp_all add: chunk(5))
  then show ?thesis by simp
next
  case (finish rid acc a' st)
  have "holds_relay s r a"
    by (rule holds_relay_frame[OF _ _ assms(3)]) (simp_all add: finish(5))
  then show ?thesis by simp
next
  case (fail rid acc a' st msg)
  have "holds_relay s r a"
    by (rule holds_relay_frame[OF _ _ assms(3)]) (simp_all add: fail(5))
  then show ?thesis by simp
qed

lemma own_inv_step:
  assumes "inv s" and "step conv now e s = Some s'" and "own_inv s"
  shows "own_inv s'"
proof -
  from assms(3) have o1: "\<And>r a. holds_relay s r a \<Longrightarrow> dequeued s r \<and> a < length (relays s)"
    and o2: "\<And>r a r' a'. holds_relay s r a \<Longrightarrow> holds_relay s r' a' \<Longrightarrow> (r = r') = (a = a')"
    unfolding own_inv_def by blast+
  note hs = holds_relay_step[OF assms(1,2)]
  have new: "dequeued s' r \<and> a < length (relays s')"
    if "e = WorkerGet" "request_queue s \<noteq> []" "r = item_request_id (hd (request_queue s))"
      "a = length (relays s)" for r a
  proof -
    from that(2) obtain it rest where q: "request_queue s = it # rest" by (cases "request_queue s") auto
    from inv_parts(2)[OF assms(1)] q obtain st where "status_tracker s (item_request_id it) = Some st"
      by (auto simp: queue_inv_def lifecycle_of_def)
    with assms(2) that q show ?thesis
      by (cases "worker s") (auto simp: worker_get_def Let_def dequeued_def lifecycle_of_def)
  qed
  have p1: "dequeued s' r \<and> a < length (relays s')" if "holds_relay s' r a" for r a
    using hs[OF that]
  proof
    assume "holds_relay s r a"
    from o1[OF this] dequeued_step[OF assms(1,2)] relays_grow[OF assms(1,2)]
    show ?thesis by auto
  next
    assume "e = WorkerGet \<and> request_queue s \<noteq> [] \<and> r = item_request_id (hd (request_queue s)) \<and>
          a = length (relays s) \<and> lifecycle_of s r = Some Queued"
    then show ?thesis using new by blast
  qed
  have p2: "(r = r') = (a = a')" if h: "holds_relay s' r a" "holds_relay s' r' a'" for r a r' a'
  proof -
    have old_new: "x \<noteq> y \<and> b \<noteq> length (relays s)"
      if "holds_relay s x b" "lifecycle_of s y = Some Queued" for x y b
      using o1[OF that(1)] that(2) by (auto simp: dequeued_def finished_def)
    from hs[OF h(1)] hs[OF h(2)] show ?thesis
      using o2 old_new by (elim disjE conjE) (simp_all, metis+)
  qed
  from p1 p2 show ?thesis unfolding own_inv_def by blast
qed

end
